theory Spec2Isabelle
  imports Main "HOL-Library.Word"
begin

section \<open>Copy-on-write trie (src/primer/trie.cpp)\<close>

text \<open>
  The trie of the source is a graph of reference-counted nodes: a node holds a map from a
  character to a shared pointer to a child, and \<open>Put\<close> and \<open>Remove\<close> build new nodes that
  share the untouched subtrees with the old trie. The sharing is modelled with an explicit
  store: a list of nodes, an address being an index into it. \<open>std::make_shared\<close> and
  \<open>Clone\<close> append a node to the store; an assignment through a pointer
  (\<open>ptr->children_[c] = n\<close>) overwrites the cell the pointer designates. A null shared
  pointer is \<open>None\<close>. Reference counts and deallocation are left out: a node is never
  removed from the store.

  The values a trie holds are those of the explicit instantiations at the end of trie.cpp:
  \<open>uint32_t\<close>, \<open>uint64_t\<close>, \<open>std::string\<close>, \<open>Integer = std::unique_ptr<uint32_t>\<close> and
  \<open>MoveBlocked\<close>. The class \<open>MoveBlocked\<close> is declared in primer/trie.h, which is not among
  the sources; its values are kept as an opaque token.
\<close>

datatype vtype = TUint32 | TUint64 | TString | TInteger | TMoveBlocked

datatype tval =
    VUint32 "32 word"
  | VUint64 "64 word"
  | VString string
  | VInteger "32 word"
  | VMoveBlocked

fun type_of :: "tval \<Rightarrow> vtype" where
  "type_of (VUint32 _) = TUint32"
| "type_of (VUint64 _) = TUint64"
| "type_of (VString _) = TString"
| "type_of (VInteger _) = TInteger"
| "type_of VMoveBlocked = TMoveBlocked"

type_synonym addr = nat

text \<open>
  \<open>TrieNode\<close> and its subclass \<open>TrieNodeWithValue<T>\<close>. The flag \<open>is_value_node_\<close> is set
  by the constructors of trie.h and is true exactly for the subclass.
\<close>

datatype node =
    TrieNode (children: "char \<rightharpoonup> addr")
  | TrieNodeWithValue (children: "char \<rightharpoonup> addr") (value_of: tval)

fun is_value_node :: "node \<Rightarrow> bool" where
  "is_value_node (TrieNode _) = False"
| "is_value_node (TrieNodeWithValue _ _) = True"

type_synonym store = "node list"

type_synonym trie = "addr option"

datatype trie_error = NullDereference

text \<open>\<open>std::make_shared\<close>: the new node gets the next free address.\<close>

definition alloc :: "store \<Rightarrow> node \<Rightarrow> store \<times> addr" where
  "alloc h n = (h @ [n], length h)"

text \<open>
  \<open>Clone\<close> (trie.h) copies a node with its children map and, for a value node, its value
  pointer. The copy is the same node value; it becomes a new object when it is allocated.
\<close>

definition Clone :: "node \<Rightarrow> node" where
  "Clone n = n"

text \<open>\<open>n->children_[c] = a\<close> and \<open>n->children_.erase(c)\<close> on the node value.\<close>

fun set_child :: "node \<Rightarrow> char \<Rightarrow> addr \<Rightarrow> node" where
  "set_child (TrieNode cs) c a = TrieNode (cs(c \<mapsto> a))"
| "set_child (TrieNodeWithValue cs v) c a = TrieNodeWithValue (cs(c \<mapsto> a)) v"

fun erase_child :: "node \<Rightarrow> char \<Rightarrow> node" where
  "erase_child (TrieNode cs) c = TrieNode (cs(c := None))"
| "erase_child (TrieNodeWithValue cs v) c = TrieNodeWithValue (cs(c := None)) v"

subsection \<open>Get\<close>

text \<open>The loop of \<open>Get\<close> that follows the key from a node: \<open>None\<close> when a branch is absent.\<close>

fun walk :: "store \<Rightarrow> addr \<Rightarrow> string \<Rightarrow> addr option" where
  "walk h p [] = Some p"
| "walk h p (c # cs) =
     (case children (h ! p) c of
        None \<Rightarrow> None
      | Some q \<Rightarrow> walk h q cs)"

text \<open>
  \<open>dynamic_cast<const TrieNodeWithValue<T> *>\<close>: succeeds on a value node whose value has
  type \<open>T\<close>.
\<close>

fun dynamic_cast :: "vtype \<Rightarrow> node \<Rightarrow> tval option" where
  "dynamic_cast T (TrieNode _) = None"
| "dynamic_cast T (TrieNodeWithValue _ v) = (if type_of v = T then Some v else None)"

definition Get :: "store \<Rightarrow> trie \<Rightarrow> vtype \<Rightarrow> string \<Rightarrow> tval option" where
  "Get h root T key =
     (case root of
        None \<Rightarrow> None
      | Some r \<Rightarrow>
          (case walk h r key of
             None \<Rightarrow> None
           | Some p \<Rightarrow>
               if \<not> is_value_node (h ! p) then None
               else dynamic_cast T (h ! p)))"

subsection \<open>Put\<close>

text \<open>
  The loop of \<open>Put\<close> over a non-empty key, from the freshly cloned node \<open>ptr\<close>: for every
  character but the last it creates an interior node or clones the existing child, stores
  it in \<open>ptr\<close> and moves on; at the last character it stores a value node that keeps the
  children of the node it replaces.
\<close>

fun put_loop :: "store \<Rightarrow> addr \<Rightarrow> string \<Rightarrow> tval \<Rightarrow> store" where
  "put_loop h ptr [] v = h"
| "put_loop h ptr [c] v =
     (case children (h ! ptr) c of
        None \<Rightarrow>
          (let (h1, obj_node) = alloc h (TrieNodeWithValue Map.empty v)
           in h1[ptr := set_child (h1 ! ptr) c obj_node])
      | Some q \<Rightarrow>
          (let (h1, obj_node) = alloc h (TrieNodeWithValue (children (h ! q)) v)
           in h1[ptr := set_child (h1 ! ptr) c obj_node]))"
| "put_loop h ptr (c # cs) v =
     (case children (h ! ptr) c of
        None \<Rightarrow>
          (let (h1, create_internal_node) = alloc h (TrieNode Map.empty);
               h2 = h1[ptr := set_child (h1 ! ptr) c create_internal_node]
           in put_loop h2 create_internal_node cs v)
      | Some q \<Rightarrow>
          (let (h1, clone_node) = alloc h (Clone (h ! q));
               h2 = h1[ptr := set_child (h1 ! ptr) c clone_node]
           in put_loop h2 clone_node cs v))"

text \<open>\<open>Put\<close> on a trie that has a root.\<close>

definition put_root :: "store \<Rightarrow> addr \<Rightarrow> string \<Rightarrow> tval \<Rightarrow> store \<times> trie" where
  "put_root h r key v =
     (let (h1, root) = alloc h (Clone (h ! r))
      in if key = [] then
           (let (h2, new_root) = alloc h1 (TrieNodeWithValue (children (h1 ! r)) v)
            in (h2, Some new_root))
         else (put_loop h1 root key v, Some root))"

text \<open>\<open>Put\<close>: an empty trie first gets an empty root node.\<close>

definition Put :: "store \<Rightarrow> trie \<Rightarrow> string \<Rightarrow> tval \<Rightarrow> store \<times> trie" where
  "Put h root key v =
     (case root of
        None \<Rightarrow> (let (h1, r) = alloc h (TrieNode Map.empty) in put_root h1 r key v)
      | Some r \<Rightarrow> put_root h r key v)"

subsection \<open>Remove\<close>

text \<open>
  \<open>Dfs\<close> takes the key and an index into it; the model passes the rest of the key from
  that index. The function reads \<open>root->children_\<close> without testing \<open>root\<close>: on a null
  pointer that is a null dereference, the error of the model.
\<close>

fun Dfs :: "store \<Rightarrow> addr option \<Rightarrow> string \<Rightarrow> trie_error + (store \<times> addr option)" where
  "Dfs h None key = Inl NullDereference"
| "Dfs h (Some r) [] =
     (if children (h ! r) = Map.empty then Inr (h, None)
      else (let (h1, a) = alloc h (TrieNode (children (h ! r))) in Inr (h1, Some a)))"
| "Dfs h (Some r) (c # cs) =
     (case children (h ! r) c of
        None \<Rightarrow> Inr (h, Some r)
      | Some q \<Rightarrow>
          (case Dfs h (Some q) cs of
             Inl e \<Rightarrow> Inl e
           | Inr (h1, new_node) \<Rightarrow>
               (let (h2, node) = alloc h1 (Clone (h1 ! r))
                in case new_node of
                     Some n \<Rightarrow> Inr (h2[node := set_child (h2 ! node) c n], Some node)
                   | None \<Rightarrow>
                       (let h3 = h2[node := erase_child (h2 ! node) c]
                        in if \<not> is_value_node (h3 ! node) \<and> children (h3 ! node) = Map.empty
                           then Inr (h3, None)
                           else Inr (h3, Some node)))))"

definition Remove :: "store \<Rightarrow> trie \<Rightarrow> string \<Rightarrow> trie_error + (store \<times> trie)" where
  "Remove h root key = Dfs h root key"

section \<open>Machine integers\<close>

text \<open>
  \<open>frame_id_t\<close> and \<open>page_id_t\<close> are \<open>int32_t\<close>, a pin count is an \<open>int\<close> of 32 bits, and
  the sizes and counts (\<open>size_t\<close>) have 64 bits. The model keeps the values in \<open>int\<close> and
  \<open>nat\<close> and writes the wrap-around at the two places where the source leaves the 32
  bits: a conversion from \<open>size_t\<close>, and an increment of a 32-bit integer. \<open>int32 x\<close> is
  the value of the 32-bit two's complement integer that has the low 32 bits of \<open>x\<close>. The
  counts of 64 bits are not wrapped around: a count grows by one in a call, and
  \<open>2 ^ 64\<close> calls are out of the reach of a run.
\<close>

definition int32 :: "int \<Rightarrow> int" where
  "int32 x = sint (word_of_int x :: 32 word)"

text \<open>\<open>static_cast<frame_id_t>(n)\<close> for a \<open>size_t n\<close>.\<close>

definition static_cast_frame_id :: "nat \<Rightarrow> int" where
  "static_cast_frame_id n = int32 (int n)"

section \<open>LRU-K replacer (src/buffer/lru_k_replacer.cpp)\<close>

text \<open>
  The class is declared in buffer/lru_k_replacer.h, which is not among the sources; the
  fields are those the code uses. The counters are natural numbers, except \<open>curr_size_\<close>,
  an integer, so that a decrement at zero would show as a negative size. A frame id is a
  natural number: the model is of the calls whose \<open>frame_id\<close> is not negative (the data
  model of the specification), and \<open>int f\<close> is the value of the 32-bit argument. An
  operation compares it with \<open>static_cast<frame_id_t>(replacer_size_)\<close>, a signed
  comparison of 32-bit integers; a frame id from \<open>2 ^ 31\<close> on, which no \<open>frame_id_t\<close> holds,
  is above every such value.
  \<^item> \<open>use_count_\<close> is read with \<open>operator[]\<close> at any frame id and counts from zero: a total
    function.
  \<^item> \<open>is_accessible_\<close> is the vector the constructor resizes to \<open>num_frames + 1\<close> flags.
  \<^item> \<open>history_list_\<close> and \<open>cache_list_\<close> are the two \<open>std::list\<close>s, the head first.
  \<^item> \<open>history_map_\<close> and \<open>cache_map_\<close> map a frame id to the iterator of its node in the
    list. The model keeps their key sets; the iterator stored under a key designates the
    node that holds this key, so \<open>list.erase(map[f])\<close> removes \<open>f\<close> from the list.
  The latch is left out: every operation holds it from its first statement to its last.
\<close>

record LRUKReplacer =
  replacer_size :: nat
  replacer_k :: nat
  curr_size :: int
  use_count :: "nat \<Rightarrow> nat"
  is_accessible :: "bool list"
  history_list :: "nat list"
  history_map :: "nat set"
  cache_list :: "nat list"
  cache_map :: "nat set"

text \<open>\<open>throw std::exception()\<close>, the only failure of the replacer.\<close>

datatype replacer_error = StdException

text \<open>The constructor.\<close>

definition LRUKReplacer_init :: "nat \<Rightarrow> nat \<Rightarrow> LRUKReplacer" where
  "LRUKReplacer_init num_frames kk =
     \<lparr>replacer_size = num_frames, replacer_k = kk, curr_size = 0,
      use_count = (\<lambda>_. 0), is_accessible = replicate (num_frames + 1) False,
      history_list = [], history_map = {}, cache_list = [], cache_map = {}\<rparr>"

subsection \<open>Evict\<close>

text \<open>
  The two loops of \<open>Evict\<close> walk a list from \<open>end()\<close> towards \<open>begin()\<close>: the iterator
  is decremented, an entry that is not evictable is skipped, the first evictable one
  stops the loop. \<open>scan_back acc xs i\<close> is the loop with the iterator at position \<open>i\<close>;
  it returns the position where it stops.
\<close>

fun scan_back :: "bool list \<Rightarrow> nat list \<Rightarrow> nat \<Rightarrow> nat option" where
  "scan_back acc xs 0 = None"
| "scan_back acc xs (Suc i) = (if \<not> acc ! (xs ! i) then scan_back acc xs i else Some i)"

text \<open>\<open>list.erase(it)\<close> with the iterator at position \<open>i\<close>.\<close>

definition erase_at :: "nat \<Rightarrow> 'a list \<Rightarrow> 'a list" where
  "erase_at i xs = take i xs @ drop (Suc i) xs"

text \<open>
  \<open>Evict\<close> returns \<open>false\<close> (here \<open>None\<close>; the source then leaves 0 in \<open>*frame_id\<close>) or
  \<open>true\<close> and the victim.
\<close>

definition Evict :: "LRUKReplacer \<Rightarrow> nat option \<times> LRUKReplacer" where
  "Evict r =
     (if history_map r = {} \<and> cache_map r = {} then (None, r)
      else
        (case scan_back (is_accessible r) (history_list r) (length (history_list r)) of
           Some i \<Rightarrow>
             (let f = history_list r ! i
              in (Some f,
                  r\<lparr>curr_size := curr_size r - 1,
                    is_accessible := (is_accessible r)[f := False],
                    use_count := (use_count r)(f := 0),
                    history_map := history_map r - {f},
                    history_list := erase_at i (history_list r)\<rparr>))
         | None \<Rightarrow>
             (case scan_back (is_accessible r) (cache_list r) (length (cache_list r)) of
                Some i \<Rightarrow>
                  (let f = cache_list r ! i
                   in (Some f,
                       r\<lparr>curr_size := curr_size r - 1,
                         is_accessible := (is_accessible r)[f := False],
                         use_count := (use_count r)(f := 0),
                         cache_map := cache_map r - {f},
                         cache_list := erase_at i (cache_list r)\<rparr>))
              | None \<Rightarrow> (None, r))))"

subsection \<open>RecordAccess\<close>

definition RecordAccess :: "nat \<Rightarrow> LRUKReplacer \<Rightarrow> replacer_error + LRUKReplacer" where
  "RecordAccess f r =
     (if int f > static_cast_frame_id (replacer_size r) then Inl StdException
      else
        (let r1 = r\<lparr>use_count := (use_count r)(f := use_count r f + 1)\<rparr>
         in if use_count r1 f = replacer_k r1 then
              (let r2 = (if f \<in> history_map r1
                         then r1\<lparr>history_list := remove1 f (history_list r1),
                                 history_map := history_map r1 - {f}\<rparr>
                         else r1)
               in Inr (r2\<lparr>cache_list := f # cache_list r2,
                          cache_map := insert f (cache_map r2)\<rparr>))
            else if use_count r1 f > replacer_k r1 then
              (let r2 = (if f \<in> cache_map r1
                         then r1\<lparr>cache_list := remove1 f (cache_list r1)\<rparr>
                         else r1)
               in Inr (r2\<lparr>cache_list := f # cache_list r2,
                          cache_map := insert f (cache_map r2)\<rparr>))
            else if f \<notin> history_map r1 then
              Inr (r1\<lparr>history_list := f # history_list r1,
                      history_map := insert f (history_map r1)\<rparr>)
            else Inr r1))"

subsection \<open>SetEvictable\<close>

definition SetEvictable :: "nat \<Rightarrow> bool \<Rightarrow> LRUKReplacer \<Rightarrow> replacer_error + LRUKReplacer" where
  "SetEvictable f set_evictable r =
     (if int f > static_cast_frame_id (replacer_size r) then Inl StdException
      else if use_count r f = 0 then Inr r
      else
        (let r1 = (if is_accessible r ! f \<and> \<not> set_evictable
                   then r\<lparr>curr_size := curr_size r - 1\<rparr> else r);
             r2 = (if \<not> is_accessible r1 ! f \<and> set_evictable
                   then r1\<lparr>curr_size := curr_size r1 + 1\<rparr> else r1)
         in Inr (r2\<lparr>is_accessible := (is_accessible r2)[f := set_evictable]\<rparr>)))"

subsection \<open>Remove and Size\<close>

text \<open>
  \<open>Remove\<close> is the C++ \<open>LRUKReplacer::Remove\<close>; the name is taken by the trie's
  operation. It looks the frame up in the map that its access count selects and erases
  the node found there. The frame it reaches this lookup with has its evictable flag set,
  and such a frame is in the list of that map (lemma \<open>run_inv\<close>), so the lookup
  finds its node: \<open>remove1\<close>.
\<close>

definition Remove_frame :: "nat \<Rightarrow> LRUKReplacer \<Rightarrow> replacer_error + LRUKReplacer" where
  "Remove_frame f r =
     (if int f > static_cast_frame_id (replacer_size r) then Inl StdException
      else if \<not> is_accessible r ! f then Inr r
      else
        (let removal = use_count r f;
             r1 = (if removal < replacer_k r
                   then r\<lparr>history_list := remove1 f (history_list r),
                          history_map := history_map r - {f}\<rparr>
                   else r\<lparr>cache_list := remove1 f (cache_list r),
                          cache_map := cache_map r - {f}\<rparr>)
         in Inr (r1\<lparr>use_count := (use_count r1)(f := 0),
                    is_accessible := (is_accessible r1)[f := False],
                    curr_size := curr_size r1 - 1\<rparr>)))"

definition Size :: "LRUKReplacer \<Rightarrow> int" where
  "Size r = curr_size r"

subsection \<open>Sequences of replacer operations\<close>

text \<open>
  A caller's sequence of operations on one replacer, from the constructor on. The three
  operations that throw do so before their first write, so the caller that catches the
  exception finds the replacer as it was.
\<close>

datatype replacer_op =
    OpRecordAccess nat
  | OpSetEvictable nat bool
  | OpEvict
  | OpRemove nat

fun replacer_step :: "replacer_op \<Rightarrow> LRUKReplacer \<Rightarrow> LRUKReplacer" where
  "replacer_step (OpRecordAccess f) r = (case RecordAccess f r of Inl _ \<Rightarrow> r | Inr r' \<Rightarrow> r')"
| "replacer_step (OpSetEvictable f b) r = (case SetEvictable f b r of Inl _ \<Rightarrow> r | Inr r' \<Rightarrow> r')"
| "replacer_step OpEvict r = snd (Evict r)"
| "replacer_step (OpRemove f) r = (case Remove_frame f r of Inl _ \<Rightarrow> r | Inr r' \<Rightarrow> r')"

fun replacer_run :: "replacer_op list \<Rightarrow> LRUKReplacer \<Rightarrow> LRUKReplacer" where
  "replacer_run [] r = r"
| "replacer_run (x # xs) r = replacer_run xs (replacer_step x r)"

section \<open>Buffer pool manager (src/buffer/buffer_pool_manager.cpp)\<close>

text \<open>
  The class and the types it uses (\<open>Page\<close>, \<open>page_id_t\<close>, \<open>frame_id_t\<close>,
  \<open>INVALID_PAGE_ID\<close>, \<open>BUSTUB_PAGE_SIZE\<close>, the disk manager) are declared in headers that
  are not among the sources. A page id and a pin count are integers, the values of 32-bit
  integers: \<open>next_page_id_++\<close> and \<open>pin_count_++\<close> wrap around at \<open>2 ^ 31 - 1\<close>
  (\<open>int32\<close>), and \<open>pin_count_--\<close>, which the source makes under \<open>pin_count_ > 0\<close>, does not
  leave the range. A frame id is a natural number, the contents of a frame are a list of
  bytes. The page size is a parameter of the constructor of the model; \<open>ResetMemory\<close>
  zeroes the buffer it is given.
\<close>

definition INVALID_PAGE_ID :: int where
  "INVALID_PAGE_ID = - 1"

record Page =
  data :: "8 word list"
  page_id :: int
  pin_count :: int
  is_dirty :: bool

definition ResetMemory :: "8 word list \<Rightarrow> 8 word list" where
  "ResetMemory d = replicate (length d) 0"

text \<open>
  The disk manager is an external collaborator. The model keeps what it stores under each
  page id, and a trace, in program order, of the calls the pool makes to it
  (\<open>WritePage\<close>, \<open>ReadPage\<close>, \<open>DeallocatePage\<close>) together with the writes the pool makes to
  its page table (\<open>TableErase\<close> for \<open>page_table_.erase(p)\<close>, \<open>TableSet\<close> for
  \<open>page_table_[p] = f\<close>). The trace is what orders a disk write against a page-table write
  inside one operation.
\<close>

datatype event =
    WritePage int "8 word list"
  | ReadPage int
  | DeallocatePage int
  | TableErase int
  | TableSet int nat

text \<open>
  \<open>free_list_\<close> is the \<open>std::list\<close> with its back at the end of the list. The latch is
  left out: every operation holds it from its first statement to its last.
\<close>

record BufferPoolManager =
  pool_size :: nat
  pages :: "Page list"
  page_table :: "int \<rightharpoonup> nat"
  free_list :: "nat list"
  replacer :: LRUKReplacer
  next_page_id :: int
  disk :: "int \<Rightarrow> 8 word list"
  trace :: "event list"

text \<open>
  The constructor: every frame is empty and in the free list, in the order 0, 1, ... The
  source puts \<open>static_cast<int>(i)\<close> in the free list, which is \<open>i\<close> in a pool of fewer
  than \<open>2 ^ 31\<close> frames; the pools of the model are these.
\<close>

definition BufferPoolManager_init ::
  "nat \<Rightarrow> nat \<Rightarrow> nat \<Rightarrow> (int \<Rightarrow> 8 word list) \<Rightarrow> BufferPoolManager" where
  "BufferPoolManager_init n replacer_kk page_size disk0 =
     \<lparr>pool_size = n,
      pages = replicate n \<lparr>data = replicate page_size 0, page_id = INVALID_PAGE_ID,
                            pin_count = 0, is_dirty = False\<rparr>,
      page_table = Map.empty,
      free_list = [0..<n],
      replacer = LRUKReplacer_init n replacer_kk,
      next_page_id = 0,
      disk = disk0,
      trace = []\<rparr>"

subsection \<open>Statements that several operations share\<close>

text \<open>An assignment to fields of \<open>pages_[f]\<close>.\<close>

definition frame_update :: "nat \<Rightarrow> (Page \<Rightarrow> Page) \<Rightarrow> BufferPoolManager \<Rightarrow> BufferPoolManager" where
  "frame_update f g s = s\<lparr>pages := (pages s)[f := g (pages s ! f)]\<rparr>"

text \<open>\<open>disk_manager_->WritePage(pages_[f].GetPageId(), pages_[f].GetData())\<close>.\<close>

definition disk_write_frame :: "nat \<Rightarrow> BufferPoolManager \<Rightarrow> BufferPoolManager" where
  "disk_write_frame f s =
     s\<lparr>disk := (disk s)(page_id (pages s ! f) := data (pages s ! f)),
       trace := trace s @ [WritePage (page_id (pages s ! f)) (data (pages s ! f))]\<rparr>"

text \<open>\<open>disk_manager_->ReadPage(p, pages_[f].data_)\<close>.\<close>

definition disk_read_frame :: "int \<Rightarrow> nat \<Rightarrow> BufferPoolManager \<Rightarrow> BufferPoolManager" where
  "disk_read_frame p f s =
     (frame_update f (\<lambda>pg. pg\<lparr>data := disk s p\<rparr>) s)\<lparr>trace := trace s @ [ReadPage p]\<rparr>"

text \<open>\<open>page_table_.erase(p)\<close> and \<open>page_table_[p] = f\<close>.\<close>

definition table_erase :: "int \<Rightarrow> BufferPoolManager \<Rightarrow> BufferPoolManager" where
  "table_erase p s = s\<lparr>page_table := (page_table s)(p := None), trace := trace s @ [TableErase p]\<rparr>"

definition table_set :: "int \<Rightarrow> nat \<Rightarrow> BufferPoolManager \<Rightarrow> BufferPoolManager" where
  "table_set p f s = s\<lparr>page_table := (page_table s)(p \<mapsto> f), trace := trace s @ [TableSet p f]\<rparr>"

text \<open>
  The block that finds a frame, the same statements in \<open>NewPage\<close> (lines 47 to 64) and in
  \<open>FetchPage\<close> (lines 97 to 111): the back of the free list if there is one; otherwise the
  victim of the replacer, written back if it is dirty and then detached from the page
  table; \<open>None\<close> when the replacer has no victim.
\<close>

definition acquire_frame :: "BufferPoolManager \<Rightarrow> nat option \<times> BufferPoolManager" where
  "acquire_frame s =
     (if free_list s \<noteq> [] then
        (Some (last (free_list s)), s\<lparr>free_list := butlast (free_list s)\<rparr>)
      else
        (case Evict (replacer s) of
           (None, r') \<Rightarrow> (None, s\<lparr>replacer := r'\<rparr>)
         | (Some f, r') \<Rightarrow>
             (let s1 = s\<lparr>replacer := r'\<rparr>;
                  s2 = (if is_dirty (pages s1 ! f)
                        then frame_update f (\<lambda>p. p\<lparr>is_dirty := False\<rparr>) (disk_write_frame f s1)
                        else s1)
              in (Some f, table_erase (page_id (pages s2 ! f)) s2))))"

subsection \<open>NewPage and FetchPage\<close>

text \<open>
  The operations return the frame they hand out (the source returns the address of
  \<open>pages_[frame_id]\<close>), \<open>None\<close> for \<open>nullptr\<close>. An exception of the replacer leaves the
  operation; it is the \<open>Inl\<close> result.
\<close>

definition NewPage ::
  "BufferPoolManager \<Rightarrow> replacer_error + ((int \<times> nat) option \<times> BufferPoolManager)" where
  "NewPage s =
     (let new_page_id = next_page_id s;
          s0 = s\<lparr>next_page_id := int32 (next_page_id s + 1)\<rparr>
      in case acquire_frame s0 of
           (None, s1) \<Rightarrow> Inr (None, s1)
         | (Some f, s1) \<Rightarrow>
             (let s2 = table_set new_page_id f s1;
                  s3 = frame_update f
                         (\<lambda>p. p\<lparr>page_id := new_page_id, is_dirty := False, pin_count := 1,
                                 data := ResetMemory (data p)\<rparr>) s2
              in case RecordAccess f (replacer s3) of
                   Inl e \<Rightarrow> Inl e
                 | Inr r1 \<Rightarrow>
                     (case SetEvictable f False r1 of
                        Inl e \<Rightarrow> Inl e
                      | Inr r2 \<Rightarrow> Inr (Some (new_page_id, f), s3\<lparr>replacer := r2\<rparr>))))"

definition FetchPage ::
  "int \<Rightarrow> BufferPoolManager \<Rightarrow> replacer_error + (nat option \<times> BufferPoolManager)" where
  "FetchPage p s =
     (case page_table s p of
        Some f \<Rightarrow>
          (let s1 = frame_update f (\<lambda>pg. pg\<lparr>pin_count := int32 (pin_count pg + 1)\<rparr>) s
           in case RecordAccess f (replacer s1) of
                Inl e \<Rightarrow> Inl e
              | Inr r1 \<Rightarrow>
                  (case SetEvictable f False r1 of
                     Inl e \<Rightarrow> Inl e
                   | Inr r2 \<Rightarrow> Inr (Some f, s1\<lparr>replacer := r2\<rparr>)))
      | None \<Rightarrow>
          (case acquire_frame s of
             (None, s1) \<Rightarrow> Inr (None, s1)
           | (Some f, s1) \<Rightarrow>
               (let s2 = table_set p f s1;
                    s3 = frame_update f
                           (\<lambda>pg. pg\<lparr>pin_count := 1, is_dirty := False, page_id := p\<rparr>) s2;
                    s4 = disk_read_frame p f s3
                in case SetEvictable f False (replacer s4) of
                     Inl e \<Rightarrow> Inl e
                   | Inr r1 \<Rightarrow>
                       (case RecordAccess f r1 of
                          Inl e \<Rightarrow> Inl e
                        | Inr r2 \<Rightarrow> Inr (Some f, s4\<lparr>replacer := r2\<rparr>)))))"

subsection \<open>UnpinPage\<close>

definition UnpinPage ::
  "int \<Rightarrow> bool \<Rightarrow> BufferPoolManager \<Rightarrow> replacer_error + (bool \<times> BufferPoolManager)" where
  "UnpinPage p dirty s =
     (case page_table s p of
        None \<Rightarrow> Inr (False, s)
      | Some f \<Rightarrow>
          if pin_count (pages s ! f) = 0 then Inr (False, s)
          else
            (let s1 = frame_update f (\<lambda>pg. pg\<lparr>is_dirty := is_dirty pg \<or> dirty\<rparr>) s
             in if pin_count (pages s1 ! f) > 0 then
                  (let s2 = frame_update f (\<lambda>pg. pg\<lparr>pin_count := pin_count pg - 1\<rparr>) s1
                   in if pin_count (pages s2 ! f) = 0 then
                        (case SetEvictable f True (replacer s2) of
                           Inl e \<Rightarrow> Inl e
                         | Inr r1 \<Rightarrow> Inr (True, s2\<lparr>replacer := r1\<rparr>))
                      else Inr (True, s2))
                else Inr (False, s1)))"

subsection \<open>FlushPage and FlushAllPages\<close>

definition FlushPage :: "int \<Rightarrow> BufferPoolManager \<Rightarrow> bool \<times> BufferPoolManager" where
  "FlushPage p s =
     (if p = INVALID_PAGE_ID then (False, s)
      else
        (case page_table s p of
           None \<Rightarrow> (False, s)
         | Some f \<Rightarrow>
             (True, frame_update f (\<lambda>pg. pg\<lparr>is_dirty := False\<rparr>) (disk_write_frame f s))))"

text \<open>The body of the loop of \<open>FlushAllPages\<close>, and the loop over the frames 0, 1, ...\<close>

definition flush_frame :: "nat \<Rightarrow> BufferPoolManager \<Rightarrow> BufferPoolManager" where
  "flush_frame i s =
     (if is_dirty (pages s ! i) \<and> page_id (pages s ! i) \<noteq> INVALID_PAGE_ID
      then frame_update i (\<lambda>pg. pg\<lparr>is_dirty := False\<rparr>) (disk_write_frame i s)
      else s)"

definition FlushAllPages :: "BufferPoolManager \<Rightarrow> BufferPoolManager" where
  "FlushAllPages s = fold flush_frame [0..<pool_size s] s"

subsection \<open>DeletePage\<close>

definition DeletePage ::
  "int \<Rightarrow> BufferPoolManager \<Rightarrow> replacer_error + (bool \<times> BufferPoolManager)" where
  "DeletePage p s =
     (case page_table s p of
        None \<Rightarrow> Inr (True, s)
      | Some f \<Rightarrow>
          if pin_count (pages s ! f) \<noteq> 0 then Inr (False, s)
          else
            (let s1 = (if is_dirty (pages s ! f)
                       then frame_update f (\<lambda>pg. pg\<lparr>is_dirty := False\<rparr>) (disk_write_frame f s)
                       else s);
                 s2 = table_erase p s1;
                 s3 = frame_update f
                        (\<lambda>pg. pg\<lparr>is_dirty := False, data := ResetMemory (data pg),
                                  page_id := INVALID_PAGE_ID\<rparr>) s2
             in case Remove_frame f (replacer s3) of
                  Inl e \<Rightarrow> Inl e
                | Inr r1 \<Rightarrow>
                    Inr (True, s3\<lparr>replacer := r1, free_list := free_list s3 @ [f],
                                  trace := trace s3 @ [DeallocatePage p]\<rparr>)))"

subsection \<open>Sequences of buffer pool operations\<close>

text \<open>
  A caller's sequence of operations on one pool, from the constructor on. Between two
  operations the holder of a frame may write into its buffer through the \<open>Page\<close> pointer
  it was given: \<open>OpWriteData\<close>. An exception ends the sequence.
\<close>

datatype bpm_op =
    OpNewPage
  | OpFetchPage int
  | OpUnpinPage int bool
  | OpFlushPage int
  | OpFlushAllPages
  | OpDeletePage int
  | OpWriteData nat "8 word list"

fun bpm_step :: "bpm_op \<Rightarrow> BufferPoolManager \<Rightarrow> replacer_error + BufferPoolManager" where
  "bpm_step OpNewPage s = (case NewPage s of Inl e \<Rightarrow> Inl e | Inr (_, s') \<Rightarrow> Inr s')"
| "bpm_step (OpFetchPage p) s = (case FetchPage p s of Inl e \<Rightarrow> Inl e | Inr (_, s') \<Rightarrow> Inr s')"
| "bpm_step (OpUnpinPage p d) s = (case UnpinPage p d s of Inl e \<Rightarrow> Inl e | Inr (_, s') \<Rightarrow> Inr s')"
| "bpm_step (OpFlushPage p) s = Inr (snd (FlushPage p s))"
| "bpm_step OpFlushAllPages s = Inr (FlushAllPages s)"
| "bpm_step (OpDeletePage p) s = (case DeletePage p s of Inl e \<Rightarrow> Inl e | Inr (_, s') \<Rightarrow> Inr s')"
| "bpm_step (OpWriteData f bytes) s = Inr (frame_update f (\<lambda>pg. pg\<lparr>data := bytes\<rparr>) s)"

fun bpm_run :: "bpm_op list \<Rightarrow> BufferPoolManager \<Rightarrow> replacer_error + BufferPoolManager" where
  "bpm_run [] s = Inr s"
| "bpm_run (x # xs) s = (case bpm_step x s of Inl e \<Rightarrow> Inl e | Inr s' \<Rightarrow> bpm_run xs s')"

section \<open>Well-formed stores\<close>

text \<open>
  A store is closed when every child pointer of every node designates a node of the store
  (the program has no dangling shared pointer). A trie is in a store when its root, if it
  has one, is a node of the store. A store extends another when it keeps every node of the
  other at its address, unchanged: no node that an older root can reach has been mutated.
\<close>

definition closed :: "store \<Rightarrow> bool" where
  "closed h \<longleftrightarrow> (\<forall>a<length h. \<forall>c q. children (h ! a) c = Some q \<longrightarrow> q < length h)"

definition in_store :: "store \<Rightarrow> trie \<Rightarrow> bool" where
  "in_store h t \<longleftrightarrow> (case t of None \<Rightarrow> True | Some r \<Rightarrow> r < length h)"

definition extends :: "store \<Rightarrow> store \<Rightarrow> bool" where
  "extends h h' \<longleftrightarrow> length h \<le> length h' \<and> (\<forall>a<length h. h' ! a = h ! a)"

text \<open>
  Two concrete tries: the empty trie with the key \<open>a\<close> put at the value 1, and that trie
  with the key \<open>a\<close> put again, at the value 2.
\<close>

definition example_store0 :: store where
  "example_store0 = fst (Put [] None ''a'' (VUint32 1))"

definition example_trie0 :: trie where
  "example_trie0 = snd (Put [] None ''a'' (VUint32 1))"

definition example_store1 :: store where
  "example_store1 = fst (Put example_store0 example_trie0 ''a'' (VUint32 2))"

definition example_trie1 :: trie where
  "example_trie1 = snd (Put example_store0 example_trie0 ''a'' (VUint32 2))"

section \<open>The consistent states of the replacer\<close>

text \<open>
  The frame ids that pass the guard of \<open>RecordAccess\<close>, \<open>SetEvictable\<close> and \<open>Remove\<close>.
\<close>

definition frame_accepted :: "nat \<Rightarrow> LRUKReplacer \<Rightarrow> bool" where
  "frame_accepted f r \<longleftrightarrow> int f \<le> static_cast_frame_id (replacer_size r)"

text \<open>The number of frames whose evictable flag is set.\<close>

definition evictable_count :: "LRUKReplacer \<Rightarrow> nat" where
  "evictable_count r = length (filter (\<lambda>b. b) (is_accessible r))"

text \<open>
  What every sequence of operations keeps true of a replacer: the flags vector has its
  constructed length; the lists hold frame ids in range, each at most once; the maps index
  the lists; a frame is in the history list exactly when it has between 1 and \<open>k - 1\<close>
  recorded accesses and in the cache list exactly when it has \<open>k\<close> or more (and at least
  one); an evictable frame has a recorded access; \<open>curr_size_\<close> counts the evictable
  frames.
\<close>

definition replacer_inv :: "LRUKReplacer \<Rightarrow> bool" where
  "replacer_inv r \<longleftrightarrow>
     length (is_accessible r) = replacer_size r + 1 \<and>
     distinct (history_list r) \<and> distinct (cache_list r) \<and>
     history_map r = set (history_list r) \<and> cache_map r = set (cache_list r) \<and>
     (\<forall>f. f \<in> set (history_list r) \<longleftrightarrow> 0 < use_count r f \<and> use_count r f < replacer_k r) \<and>
     (\<forall>f. f \<in> set (cache_list r) \<longleftrightarrow> 0 < use_count r f \<and> replacer_k r \<le> use_count r f) \<and>
     (\<forall>f. 0 < use_count r f \<longrightarrow> f \<le> replacer_size r) \<and>
     (\<forall>f \<le> replacer_size r. is_accessible r ! f \<longrightarrow> 0 < use_count r f) \<and>
     curr_size r = int (evictable_count r)"

text \<open>
  A concrete run, with 7 frames and \<open>k = 2\<close>: frames 2, 3, 4 are accessed, then 2 again
  (which moves it to the cache list), and frames 2, 3 and 4 are made evictable.
\<close>

definition example_ops :: "replacer_op list" where
  "example_ops =
     [OpRecordAccess 2, OpRecordAccess 3, OpRecordAccess 4, OpRecordAccess 2,
      OpSetEvictable 2 True, OpSetEvictable 3 True, OpSetEvictable 4 True]"

definition example_replacer :: LRUKReplacer where
  "example_replacer = replacer_run example_ops (LRUKReplacer_init 7 2)"

section \<open>The times of the accesses\<close>

text \<open>
  The replacer of the source keeps no timestamps. To say which frame arrived first and
  which was used least recently, a run is observed with a clock that ticks once per
  operation, and with, for every frame, the times of the accesses that its \<open>use_count_\<close>
  counts, the most recent first: a step that raises the count of a frame records the
  time, and a frame whose count is 0 has no recorded access.
\<close>

record timed_replacer =
  clock :: nat
  rep :: LRUKReplacer
  accesses :: "nat \<Rightarrow> nat list"

definition timed_init :: "nat \<Rightarrow> nat \<Rightarrow> timed_replacer" where
  "timed_init num_frames kk =
     \<lparr>clock = 0, rep = LRUKReplacer_init num_frames kk, accesses = (\<lambda>_. [])\<rparr>"

definition timed_step :: "replacer_op \<Rightarrow> timed_replacer \<Rightarrow> timed_replacer" where
  "timed_step x s =
     (let r' = replacer_step x (rep s)
      in \<lparr>clock = Suc (clock s), rep = r',
          accesses = (\<lambda>g. if use_count r' g = 0 then []
                           else if use_count (rep s) g < use_count r' g
                                then clock s # accesses s g
                                else accesses s g)\<rparr>)"

fun timed_run :: "replacer_op list \<Rightarrow> timed_replacer \<Rightarrow> timed_replacer" where
  "timed_run [] s = s"
| "timed_run (x # xs) s = timed_run xs (timed_step x s)"

text \<open>The first, the most recent and the k-th most recent access of a frame.\<close>

definition first_access :: "timed_replacer \<Rightarrow> nat \<Rightarrow> nat" where
  "first_access s g = last (accesses s g)"

definition latest_access :: "timed_replacer \<Rightarrow> nat \<Rightarrow> nat" where
  "latest_access s g = hd (accesses s g)"

definition kth_latest_access :: "timed_replacer \<Rightarrow> nat \<Rightarrow> nat" where
  "kth_latest_access s g = accesses s g ! (replacer_k (rep s) - 1)"

text \<open>
  What a timed run keeps true: the recorded accesses of a frame are as many as its use
  count, all in the past; the history list is in the order of the first accesses and the
  cache list in the order of the most recent accesses, the latest at the front.
\<close>

definition timed_inv :: "timed_replacer \<Rightarrow> bool" where
  "timed_inv s \<longleftrightarrow>
     replacer_inv (rep s) \<and>
     (\<forall>g. length (accesses s g) = use_count (rep s) g) \<and>
     (\<forall>g. \<forall>t\<in>set (accesses s g). t < clock s) \<and>
     sorted_wrt (\<lambda>x y. first_access s y < first_access s x) (history_list (rep s)) \<and>
     sorted_wrt (\<lambda>x y. latest_access s y < latest_access s x) (cache_list (rep s))"

text \<open>
  A second concrete run, with \<open>k = 2\<close>: frame 2 is accessed at the times 0 and 1, frame 3
  at the times 2 and 3, frame 2 again at the time 4, and both are made evictable.
\<close>

definition example_timed_ops :: "replacer_op list" where
  "example_timed_ops =
     [OpRecordAccess 2, OpRecordAccess 2, OpRecordAccess 3, OpRecordAccess 3,
      OpRecordAccess 2, OpSetEvictable 2 True, OpSetEvictable 3 True]"

definition example_timed :: timed_replacer where
  "example_timed = timed_run example_timed_ops (timed_init 7 2)"

section \<open>The consistent states of the buffer pool\<close>

text \<open>
  What every sequence of operations keeps true of a pool: the frame array has
  \<open>pool_size\<close> frames and the replacer was built for as many; the replacer is consistent;
  the free list and the page table hold frame ids of the array; a frame whose evictable
  flag is set is a frame of the array and has pin count 0; the pool has fewer than
  \<open>2 ^ 31\<close> frames, so that every frame id is a \<open>frame_id_t\<close>.
\<close>

definition bpm_inv :: "BufferPoolManager \<Rightarrow> bool" where
  "bpm_inv s \<longleftrightarrow>
     length (pages s) = pool_size s \<and>
     replacer_size (replacer s) = pool_size s \<and>
     replacer_inv (replacer s) \<and>
     (\<forall>f\<in>set (free_list s). f < pool_size s) \<and>
     (\<forall>p f. page_table s p = Some f \<longrightarrow> f < pool_size s) \<and>
     (\<forall>f\<le>pool_size s. is_accessible (replacer s) ! f \<longrightarrow>
        f < pool_size s \<and> pin_count (pages s ! f) = 0) \<and>
     pool_size s < 2 ^ 31"


text \<open>
  The page table and the frames agree: the frame a page id is mapped to holds this page
  id and is not in the free list, and the free list holds no frame twice.
\<close>

definition table_inv :: "BufferPoolManager \<Rightarrow> bool" where
  "table_inv s \<longleftrightarrow>
     distinct (free_list s) \<and>
     (\<forall>p f. page_table s p = Some f \<longrightarrow>
        page_id (pages s ! f) = p \<and> f \<notin> set (free_list s))"

text \<open>
  A concrete run on a pool of one frame with \<open>k = 2\<close> and pages of 4 bytes: a page is
  created, written to and unpinned as dirty.
\<close>

definition example_disk :: "int \<Rightarrow> 8 word list" where
  "example_disk = (\<lambda>_. [0, 0, 0, 0])"

definition example_bpm_ops :: "bpm_op list" where
  "example_bpm_ops = [OpNewPage, OpWriteData 0 [104, 105, 0, 0], OpUnpinPage 0 True]"

definition example_bpm :: BufferPoolManager where
  "example_bpm = projr (bpm_run example_bpm_ops (BufferPoolManager_init 1 2 4 example_disk))"

section \<open>Properties of the trie\<close>

subsection \<open>The loop of Put\<close>

declare put_loop.simps(2,3) [simp del]

lemma put_loop_last:
  "ptr < length h \<Longrightarrow> put_loop h ptr [c] v =
     (h @ [TrieNodeWithValue (case children (h ! ptr) c of None \<Rightarrow> Map.empty | Some q \<Rightarrow> children (h ! q)) v])
       [ptr := set_child (h ! ptr) c (length h)]"
  by (simp add: put_loop.simps alloc_def nth_append split: option.splits)

lemma put_loop_step:
  "ptr < length h \<Longrightarrow> cs \<noteq> [] \<Longrightarrow> put_loop h ptr (c # cs) v =
     put_loop ((h @ [case children (h ! ptr) c of None \<Rightarrow> TrieNode Map.empty | Some q \<Rightarrow> h ! q])
                 [ptr := set_child (h ! ptr) c (length h)]) (length h) cs v"
  by (cases cs) (simp_all add: put_loop.simps alloc_def Clone_def nth_append split: option.splits)

lemma children_set_child [simp]: "children (set_child n c a) = (children n)(c \<mapsto> a)"
  by (cases n) simp_all

lemma children_erase_child [simp]: "children (erase_child n c) = (children n)(c := None)"
  by (cases n) simp_all

lemma is_value_node_set_child [simp]: "is_value_node (set_child n c a) = is_value_node n"
  by (cases n) simp_all

lemma is_value_node_erase_child [simp]: "is_value_node (erase_child n c) = is_value_node n"
  by (cases n) simp_all

lemma put_loop_other:
  "ptr < length h \<Longrightarrow> b < length h \<Longrightarrow> b \<noteq> ptr \<Longrightarrow> put_loop h ptr key v ! b = h ! b"
proof (induction key arbitrary: h ptr)
  case Nil
  then show ?case by simp
next
  case (Cons c cs)
  show ?case
  proof (cases "cs = []")
    case True
    with Cons.prems show ?thesis
      by (simp add: put_loop_last nth_append)
  next
    case False
    let ?h2 = "(h @ [case children (h ! ptr) c of None \<Rightarrow> TrieNode Map.empty | Some q \<Rightarrow> h ! q])
                 [ptr := set_child (h ! ptr) c (length h)]"
    have "put_loop ?h2 (length h) cs v ! b = ?h2 ! b"
      using Cons.prems by (intro Cons.IH) simp_all
    with Cons.prems False show ?thesis
      by (simp add: put_loop_step nth_append)
  qed
qed

lemma put_loop_ptr:
  "ptr < length h \<Longrightarrow> children (put_loop h ptr (c # cs) v ! ptr) c = Some (length h)"
proof (cases "cs = []")
  case True
  assume "ptr < length h"
  with True show ?thesis by (simp add: put_loop_last)
next
  case False
  assume p: "ptr < length h"
  let ?h2 = "(h @ [case children (h ! ptr) c of None \<Rightarrow> TrieNode Map.empty | Some q \<Rightarrow> h ! q])
                 [ptr := set_child (h ! ptr) c (length h)]"
  have "put_loop ?h2 (length h) cs v ! ptr = ?h2 ! ptr"
    using p by (intro put_loop_other) simp_all
  with p False show ?thesis by (simp add: put_loop_step)
qed

lemma put_loop_walk:
  "ptr < length h \<Longrightarrow> key \<noteq> [] \<Longrightarrow>
   \<exists>p cs. walk (put_loop h ptr key v) ptr key = Some p \<and> put_loop h ptr key v ! p = TrieNodeWithValue cs v"
proof (induction key arbitrary: h ptr)
  case Nil
  then show ?case by simp
next
  case (Cons c cs)
  show ?case
  proof (cases "cs = []")
    case True
    with Cons.prems show ?thesis
      by (simp add: put_loop_last)
  next
    case False
    let ?h2 = "(h @ [case children (h ! ptr) c of None \<Rightarrow> TrieNode Map.empty | Some q \<Rightarrow> h ! q])
                 [ptr := set_child (h ! ptr) c (length h)]"
    have "\<exists>p cs'. walk (put_loop ?h2 (length h) cs v) (length h) cs = Some p
            \<and> put_loop ?h2 (length h) cs v ! p = TrieNodeWithValue cs' v"
      using False by (intro Cons.IH) simp_all
    moreover have "children (put_loop h ptr (c # cs) v ! ptr) c = Some (length h)"
      using Cons.prems by (simp add: put_loop_ptr)
    ultimately show ?thesis
      using Cons.prems False by (simp add: put_loop_step)
  qed
qed

lemma Get_put_root: "Get (fst (put_root h r key v)) (snd (put_root h r key v)) (type_of v) key = Some v"
proof (cases "key = []")
  case True
  then show ?thesis by (simp add: put_root_def alloc_def Get_def nth_append)
next
  case False
  obtain p cs where "walk (put_loop (h @ [h ! r]) (length h) key v) (length h) key = Some p"
     "put_loop (h @ [h ! r]) (length h) key v ! p = TrieNodeWithValue cs v"
    using put_loop_walk[of "length h" "h @ [h ! r]" key v] False by auto
  with False show ?thesis by (simp add: put_root_def alloc_def Get_def Clone_def)
qed

subsection \<open>Stores only grow\<close>

lemma extends_refl: "extends h h"
  by (simp add: extends_def)

lemma extends_trans: "extends h h1 \<Longrightarrow> extends h1 h2 \<Longrightarrow> extends h h2"
  by (auto simp: extends_def)

lemma extends_append: "extends h (h @ xs)"
  by (simp add: extends_def nth_append)

lemma closedD: "closed h \<Longrightarrow> a < length h \<Longrightarrow> children (h ! a) c = Some q \<Longrightarrow> q < length h"
  by (auto simp: closed_def)

lemma walk_bound:
  "closed h \<Longrightarrow> p < length h \<Longrightarrow> walk h p key = Some q \<Longrightarrow> q < length h"
proof (induction key arbitrary: p)
  case Nil
  then show ?case by simp
next
  case (Cons c cs)
  then show ?case
    by (auto split: option.splits dest: closedD)
qed

lemma walk_extends:
  "closed h \<Longrightarrow> extends h h' \<Longrightarrow> p < length h \<Longrightarrow> walk h' p key = walk h p key"
proof (induction key arbitrary: p)
  case Nil
  then show ?case by simp
next
  case (Cons c cs)
  from Cons.prems have same: "h' ! p = h ! p"
    by (simp add: extends_def)
  show ?case
  proof (cases "children (h ! p) c")
    case None
    with same show ?thesis by simp
  next
    case (Some q)
    with Cons.prems have "q < length h" by (auto dest: closedD)
    with Cons.IH[of q] Cons.prems Some same show ?thesis by simp
  qed
qed

lemma Get_extends:
  "closed h \<Longrightarrow> extends h h' \<Longrightarrow> in_store h t \<Longrightarrow> Get h' t T key = Get h t T key"
proof (cases t)
  case None
  then show ?thesis by (simp add: Get_def)
next
  case (Some r)
  assume c: "closed h" and e: "extends h h'" and "in_store h t"
  with Some have r: "r < length h" by (simp add: in_store_def)
  have w: "walk h' r key = walk h r key"
    using c e r by (rule walk_extends)
  show ?thesis
  proof (cases "walk h r key")
    case None
    with w Some show ?thesis by (simp add: Get_def)
  next
    case (Some p)
    with c r have "p < length h" by (auto dest: walk_bound)
    with e have "h' ! p = h ! p" by (simp add: extends_def)
    with w Some \<open>t = Some r\<close> show ?thesis by (simp add: Get_def)
  qed
qed

subsection \<open>Put extends the store\<close>

lemma put_loop_length: "ptr < length h \<Longrightarrow> length h \<le> length (put_loop h ptr key v)"
proof (induction key arbitrary: h ptr)
  case Nil
  then show ?case by simp
next
  case (Cons c cs)
  show ?case
  proof (cases "cs = []")
    case True
    with Cons.prems show ?thesis by (simp add: put_loop_last)
  next
    case False
    let ?h2 = "(h @ [case children (h ! ptr) c of None \<Rightarrow> TrieNode Map.empty | Some q \<Rightarrow> h ! q])
                 [ptr := set_child (h ! ptr) c (length h)]"
    have "length ?h2 \<le> length (put_loop ?h2 (length h) cs v)"
      by (intro Cons.IH) simp
    with Cons.prems False show ?thesis by (simp add: put_loop_step)
  qed
qed

lemma closed_alloc_update:
  assumes "closed h" and "ptr < length h"
    and "\<forall>c q. children n c = Some q \<longrightarrow> q < length h"
  shows "closed ((h @ [n])[ptr := set_child (h ! ptr) c (length h)])"
  unfolding closed_def
proof (intro allI impI)
  fix a c' q
  let ?h2 = "(h @ [n])[ptr := set_child (h ! ptr) c (length h)]"
  assume a: "a < length ?h2" and ch: "children (?h2 ! a) c' = Some q"
  show "q < length ?h2"
  proof (cases "a = ptr")
    case True
    with assms ch have "((children (h ! ptr))(c \<mapsto> length h)) c' = Some q" by simp
    with assms(1,2) show ?thesis
      by (auto split: if_splits dest: closedD intro: less_SucI)
  next
    case False
    show ?thesis
    proof (cases "a < length h")
      case True
      with False ch have "children (h ! a) c' = Some q" by (simp add: nth_append)
      with assms(1) True have "q < length h" by (auto dest: closedD)
      then show ?thesis by simp
    next
      case False
      with a have "a = length h" by simp
      with \<open>a \<noteq> ptr\<close> ch have "children n c' = Some q" by simp
      with assms(3) have "q < length h" by blast
      then show ?thesis by simp
    qed
  qed
qed

lemma put_loop_closed:
  "closed h \<Longrightarrow> ptr < length h \<Longrightarrow> closed (put_loop h ptr key v)"
proof (induction key arbitrary: h ptr)
  case Nil
  then show ?case by simp
next
  case (Cons c cs)
  show ?case
  proof (cases "cs = []")
    case True
    have "closed ((h @ [TrieNodeWithValue (case children (h ! ptr) c of None \<Rightarrow> Map.empty | Some q \<Rightarrow> children (h ! q)) v])
       [ptr := set_child (h ! ptr) c (length h)])"
      using Cons.prems
      by (intro closed_alloc_update) (auto split: option.splits dest: closedD)
    with Cons.prems True show ?thesis by (simp add: put_loop_last)
  next
    case False
    let ?h2 = "(h @ [case children (h ! ptr) c of None \<Rightarrow> TrieNode Map.empty | Some q \<Rightarrow> h ! q])
                 [ptr := set_child (h ! ptr) c (length h)]"
    have "closed ?h2"
      using Cons.prems
      by (intro closed_alloc_update) (auto split: option.splits dest: closedD)
    then have "closed (put_loop ?h2 (length h) cs v)"
      by (rule Cons.IH) simp
    with Cons.prems False show ?thesis by (simp add: put_loop_step)
  qed
qed

lemma closed_append:
  "closed h \<Longrightarrow> \<forall>c q. children n c = Some q \<longrightarrow> q < length h \<Longrightarrow> closed (h @ [n])"
  unfolding closed_def
  by (auto simp: nth_append less_Suc_eq)

lemma put_root_props:
  assumes "closed h" and "r < length h" and "put_root h r key v = (h', t')"
  shows "extends h h' \<and> closed h' \<and> in_store h' t'"
proof (cases "key = []")
  case True
  with assms(3) have h': "h' = h @ [h ! r] @ [TrieNodeWithValue (children (h ! r)) v]"
    and t': "t' = Some (Suc (length h))"
    using assms(2) by (auto simp: put_root_def alloc_def Clone_def nth_append)
  have "closed (h @ [h ! r])"
    using assms(1,2) by (intro closed_append) (auto dest: closedD)
  then have "closed ((h @ [h ! r]) @ [TrieNodeWithValue (children (h ! r)) v])"
    using assms(1,2) by (intro closed_append) (auto dest: closedD intro: less_SucI)
  with h' t' show ?thesis
    by (simp add: extends_append in_store_def)
next
  case False
  let ?h1 = "h @ [h ! r]"
  from False assms(3) have h': "h' = put_loop ?h1 (length h) key v" and t': "t' = Some (length h)"
    by (auto simp: put_root_def alloc_def Clone_def)
  have c1: "closed ?h1"
    using assms(1,2) by (intro closed_append) (auto dest: closedD)
  have len: "length ?h1 \<le> length h'"
    unfolding h' by (rule put_loop_length) simp
  have "\<forall>a<length h. h' ! a = h ! a"
  proof (intro allI impI)
    fix a assume a: "a < length h"
    then have "put_loop ?h1 (length h) key v ! a = ?h1 ! a"
      by (intro put_loop_other) simp_all
    with a show "h' ! a = h ! a" by (simp add: h' nth_append)
  qed
  moreover have "closed h'"
    unfolding h' using c1 by (rule put_loop_closed) simp
  ultimately show ?thesis
    using len t' by (simp add: extends_def in_store_def)
qed

lemma Put_props:
  assumes "closed h" and "in_store h t" and "Put h t key v = (h', t')"
  shows "extends h h' \<and> closed h' \<and> in_store h' t'"
proof (cases t)
  case None
  with assms(3) have p: "put_root (h @ [TrieNode Map.empty]) (length h) key v = (h', t')"
    by (simp add: Put_def alloc_def)
  have "closed (h @ [TrieNode Map.empty])"
    using assms(1) by (intro closed_append) simp_all
  then have "extends (h @ [TrieNode Map.empty]) h' \<and> closed h' \<and> in_store h' t'"
    using p by (intro put_root_props[where r = "length h" and key = key and v = v]) simp_all
  moreover have "extends h (h @ [TrieNode Map.empty])" by (rule extends_append)
  ultimately show ?thesis by (blast intro: extends_trans)
next
  case (Some r)
  with assms show ?thesis
    by (intro put_root_props[where r = r and key = key and v = v]) (simp_all add: Put_def in_store_def)
qed

subsection \<open>Remove\<close>

lemma Get_Cons_Some:
  "children (h ! r) c = Some n \<Longrightarrow> Get h (Some r) T (c # cs) = Get h (Some n) T cs"
  by (simp add: Get_def)

lemma Get_Cons_None:
  "children (h ! r) c = None \<Longrightarrow> Get h (Some r) T (c # cs) = None"
  by (simp add: Get_def)

lemma Get_None [simp]: "Get h None T key = None"
  by (simp add: Get_def)

lemma Dfs_Cons_Some:
  assumes "children (h ! r) c = Some q" and "Dfs h (Some q) cs = Inr (h1, new_node)"
  shows "Dfs h (Some r) (c # cs) =
     Inr (case new_node of
            Some n \<Rightarrow> (h1 @ [set_child (h1 ! r) c n], Some (length h1))
          | None \<Rightarrow>
              (h1 @ [erase_child (h1 ! r) c],
               if \<not> is_value_node (h1 ! r) \<and> (children (h1 ! r))(c := None) = Map.empty
               then None else Some (length h1)))"
  using assms by (simp add: alloc_def Clone_def split: option.splits)

lemma Dfs_props:
  "closed h \<Longrightarrow> r < length h \<Longrightarrow>
   \<exists>h' t'. Dfs h (Some r) key = Inr (h', t') \<and> extends h h' \<and> closed h' \<and> in_store h' t'
      \<and> (\<forall>T. Get h' t' T key = None)"
proof (induction key arbitrary: r)
  case Nil
  show ?case
  proof (cases "children (h ! r) = Map.empty")
    case True
    with Nil show ?thesis by (simp add: extends_refl in_store_def)
  next
    case False
    have "closed (h @ [TrieNode (children (h ! r))])"
      using Nil by (intro closed_append) (auto dest: closedD)
    with False show ?thesis
      by (simp add: alloc_def extends_append in_store_def Get_def)
  qed
next
  case (Cons c cs)
  show ?case
  proof (cases "children (h ! r) c")
    case None
    with Cons.prems show ?thesis
      by (simp add: extends_refl in_store_def Get_Cons_None)
  next
    case (Some q)
    with Cons.prems have q: "q < length h" by (auto dest: closedD)
    from Cons.IH[OF Cons.prems(1) q] obtain h1 nn where
      d: "Dfs h (Some q) cs = Inr (h1, nn)" and e: "extends h h1" and c1: "closed h1"
      and i: "in_store h1 nn" and g: "\<forall>T. Get h1 nn T cs = None"
      by blast
    from e Cons.prems have same: "h1 ! r = h ! r" and r1: "r < length h1"
      by (auto simp: extends_def)
    have kids: "\<forall>c' q'. children (h ! r) c' = Some q' \<longrightarrow> q' < length h1"
      using Cons.prems e by (auto simp: extends_def dest!: closedD)
    show ?thesis
    proof (cases nn)
      case None
      let ?h' = "h1 @ [erase_child (h ! r) c]"
      have "closed ?h'"
        using c1 kids by (intro closed_append) (auto split: if_splits)
      moreover have "extends h ?h'"
        using e extends_append by (rule extends_trans)
      moreover have "Get ?h' (Some (length h1)) T (c # cs) = None" for T
        by (intro Get_Cons_None) simp
      ultimately show ?thesis
        using Dfs_Cons_Some[OF Some d] None same
        by (simp add: in_store_def)
    next
      case (Some n)
      with i have n: "n < length h1" by (simp add: in_store_def)
      let ?h' = "h1 @ [set_child (h ! r) c n]"
      have cl: "closed ?h'"
        using c1 kids n by (intro closed_append) (auto split: if_splits)
      have ex: "extends h ?h'"
        using e extends_append by (rule extends_trans)
      have "Get ?h' (Some (length h1)) T (c # cs) = None" for T
      proof -
        have "Get ?h' (Some (length h1)) T (c # cs) = Get ?h' (Some n) T cs"
          by (intro Get_Cons_Some) simp
        also have "\<dots> = Get h1 (Some n) T cs"
          using c1 extends_append n by (intro Get_extends) (simp_all add: in_store_def)
        finally show ?thesis using g Some by simp
      qed
      with cl ex show ?thesis
        using Dfs_Cons_Some[OF \<open>children (h ! r) c = Some q\<close> d] Some same
        by (simp add: in_store_def)
    qed
  qed
qed

section \<open>Claims about the trie\<close>

lemma closed_Nil: "closed []"
  by (simp add: closed_def)

lemma example0_wf: "closed example_store0 \<and> in_store example_store0 example_trie0"
proof -
  have "Put [] None ''a'' (VUint32 1) = (example_store0, example_trie0)"
    by (simp add: example_store0_def example_trie0_def)
  from Put_props[OF closed_Nil _ this] show ?thesis
    by (simp add: in_store_def)
qed

text \<open>
  C5, trie round-trip: for every store and trie, every key (the empty key too) and every
  typed value \<open>v\<close>, \<open>Get\<close> at the type of \<open>v\<close> on the trie that \<open>Put\<close> returns for
  the key and \<open>v\<close> finds \<open>v\<close>.
\<close>

theorem trie_put_get:
  "Get (fst (Put h t key v)) (snd (Put h t key v)) (type_of v) key = Some v"
  by (cases t) (simp_all add: Put_def alloc_def Get_put_root)

theorem trie_put_get_witness:
  "Get (fst (Put example_store0 example_trie0 ''ab'' (VString ''x'')))
       (snd (Put example_store0 example_trie0 ''ab'' (VString ''x''))) TString ''ab''
     = Some (VString ''x'')"
  using trie_put_get [of example_store0 example_trie0 "''ab''" "VString ''x''"] by simp

text \<open>
  C6 as it is stated fails: with \<open>t0\<close> the trie holding 1 at the key \<open>a\<close>,
  \<open>t1 = t0.Put(a, 2)\<close> and \<open>t2 = t1.Remove(a)\<close>, \<open>t0.Get(a)\<close> is 1 and
  \<open>t2.Get(a)\<close> is absent.
\<close>

theorem trie_put_remove_counterexample:
  "\<not> isl (Remove example_store1 example_trie1 ''a'') \<and>
   Get example_store0 example_trie0 TUint32 ''a'' \<noteq>
   Get (fst (projr (Remove example_store1 example_trie1 ''a'')))
       (snd (projr (Remove example_store1 example_trie1 ''a''))) TUint32 ''a''"
  by (simp add: example_store1_def example_trie1_def example_store0_def example_trie0_def
      Put_def put_root_def put_loop.simps alloc_def Clone_def Remove_def Get_def)

text \<open>
  C6, amended: for every trie \<open>t0\<close> of a closed store, key \<open>k\<close> and value \<open>v\<close>, with
  \<open>t1 = t0.Put(k, v)\<close>, \<open>t2 = t1.Remove(k)\<close> is defined and \<open>t2.Get(k)\<close> is absent at
  every type, so that \<open>t0.Get(k) = t2.Get(k)\<close> holds exactly when \<open>t0\<close> holds no value of
  the queried type at \<open>k\<close>; no node of the store of \<open>t0\<close> is changed by \<open>Put\<close> or
  \<open>Remove\<close>, and every \<open>Get\<close> on \<open>t0\<close> returns after them what it returned before.
\<close>

theorem trie_put_remove:
  assumes "closed h0" and "in_store h0 t0" and "Put h0 t0 k v = (h1, t1)"
  shows "\<exists>h2 t2. Remove h1 t1 k = Inr (h2, t2)
           \<and> (\<forall>T. Get h2 t2 T k = None)
           \<and> (\<forall>T. Get h0 t0 T k = Get h2 t2 T k \<longleftrightarrow> Get h0 t0 T k = None)
           \<and> (\<forall>a<length h0. h1 ! a = h0 ! a \<and> h2 ! a = h0 ! a)
           \<and> (\<forall>T k'. Get h1 t0 T k' = Get h0 t0 T k' \<and> Get h2 t0 T k' = Get h0 t0 T k')"
proof -
  from Put_props[OF assms] have e1: "extends h0 h1" and c1: "closed h1" and i1: "in_store h1 t1"
    by simp_all
  obtain r1 where t1: "t1 = Some r1"
    using assms(3) by (cases t0) (auto simp: Put_def put_root_def alloc_def split: if_splits)
  with i1 have "r1 < length h1" by (simp add: in_store_def)
  from Dfs_props[OF c1 this, of k] obtain h2 t2 where
    d: "Dfs h1 (Some r1) k = Inr (h2, t2)" and e2: "extends h1 h2"
    and g: "\<forall>T. Get h2 t2 T k = None"
    by blast
  from e1 e2 have e02: "extends h0 h2" by (rule extends_trans)
  have "Get h1 t0 T k' = Get h0 t0 T k'" for T k'
    using assms(1) e1 assms(2) by (rule Get_extends)
  moreover have "Get h2 t0 T k' = Get h0 t0 T k'" for T k'
    using assms(1) e02 assms(2) by (rule Get_extends)
  moreover have "\<forall>a<length h0. h1 ! a = h0 ! a \<and> h2 ! a = h0 ! a"
    using e1 e02 by (simp add: extends_def)
  ultimately show ?thesis
    using d g t1 by (auto simp: Remove_def)
qed

theorem trie_put_remove_witness:
  "closed example_store0 \<and> in_store example_store0 example_trie0 \<and>
   Put example_store0 example_trie0 ''a'' (VUint32 2) = (example_store1, example_trie1) \<and>
   (\<exists>h2 t2. Remove example_store1 example_trie1 ''a'' = Inr (h2, t2)
      \<and> (\<forall>T. Get h2 t2 T ''a'' = None)
      \<and> (\<forall>T. Get example_store0 example_trie0 T ''a'' = Get h2 t2 T ''a''
              \<longleftrightarrow> Get example_store0 example_trie0 T ''a'' = None)
      \<and> (\<forall>a<length example_store0. example_store1 ! a = example_store0 ! a
              \<and> h2 ! a = example_store0 ! a)
      \<and> (\<forall>T k'. Get example_store1 example_trie0 T k' = Get example_store0 example_trie0 T k'
              \<and> Get h2 example_trie0 T k' = Get example_store0 example_trie0 T k'))"
proof -
  have c: "closed example_store0" and i: "in_store example_store0 example_trie0"
    using example0_wf by simp_all
  have p: "Put example_store0 example_trie0 ''a'' (VUint32 2) = (example_store1, example_trie1)"
    by (simp add: example_store1_def example_trie1_def)
  from trie_put_remove [OF c i p] c i p show ?thesis by blast
qed

text \<open>
  C7: \<open>Remove\<close> on the empty trie (no root) passes the null root to \<open>Dfs\<close>, which
  dereferences it, whatever the key: \<open>Remove\<close> is not defined there. \<open>Get\<close> and \<open>Put\<close>
  test the root first.
\<close>

theorem remove_empty_trie: "Remove h None key = Inl NullDereference"
  by (simp add: Remove_def)

section \<open>Properties of the machine integers\<close>

lemma int32_mod: "int32 x = (x + 2 ^ 31) mod 2 ^ 32 - 2 ^ 31"
  by (simp add: int32_def sint_sbintrunc' signed_take_bit_eq_take_bit_shift take_bit_eq_mod)

lemma int32_id: "- (2 ^ 31) \<le> x \<Longrightarrow> x < 2 ^ 31 \<Longrightarrow> int32 x = x"
  by (simp add: int32_mod)

lemma int32_range: "- (2 ^ 31) \<le> int32 x \<and> int32 x < 2 ^ 31"
  by (simp add: int32_mod)

lemma static_cast_frame_id_le: "static_cast_frame_id n \<le> int n"
proof -
  have "(int n + 2 ^ 31) mod 2 ^ 32 \<le> int n + 2 ^ 31"
    by (rule zmod_le_nonneg_dividend) simp
  then show ?thesis by (simp add: static_cast_frame_id_def int32_mod)
qed

lemma static_cast_frame_id_small: "n < 2 ^ 31 \<Longrightarrow> static_cast_frame_id n = int n"
  by (simp add: static_cast_frame_id_def int32_id)

section \<open>Properties of the replacer\<close>

subsection \<open>The guard\<close>

lemma frame_accepted_le: "frame_accepted f r \<Longrightarrow> f \<le> replacer_size r"
  using static_cast_frame_id_le[of "replacer_size r"] by (simp add: frame_accepted_def)

lemma frame_accepted_iff:
  "replacer_size r < 2 ^ 31 \<Longrightarrow> frame_accepted f r \<longleftrightarrow> f \<le> replacer_size r"
  by (simp add: frame_accepted_def static_cast_frame_id_small)

subsection \<open>Lists, flags and the scan\<close>

lemma count_true_update:
  "f < length xs \<Longrightarrow>
   int (length (filter (\<lambda>b. b) (xs[f := b]))) =
   int (length (filter (\<lambda>b. b) xs)) - (if xs ! f then 1 else 0) + (if b then 1 else 0)"
proof (induction xs arbitrary: f)
  case Nil
  then show ?case by simp
next
  case (Cons x xs)
  show ?case
  proof (cases f)
    case 0
    then show ?thesis by simp
  next
    case (Suc g)
    with Cons.prems have "g < length xs" by simp
    from Cons.IH[OF this] Suc show ?thesis
      by (cases b; cases x; cases "xs ! g") simp_all
  qed
qed

lemma scan_back_Some:
  "scan_back acc xs i = Some j \<Longrightarrow>
   j < i \<and> acc ! (xs ! j) \<and> (\<forall>m. j < m \<and> m < i \<longrightarrow> \<not> acc ! (xs ! m))"
proof (induction i)
  case 0
  then show ?case by simp
next
  case (Suc i)
  show ?case
  proof (cases "acc ! (xs ! i)")
    case True
    with Suc.prems show ?thesis by auto
  next
    case False
    with Suc.prems have "scan_back acc xs i = Some j" by simp
    from Suc.IH[OF this] False show ?thesis
      by (auto simp: less_Suc_eq)
  qed
qed

lemma scan_back_None:
  "scan_back acc xs i = None \<longleftrightarrow> (\<forall>m<i. \<not> acc ! (xs ! m))"
  by (induction i) (auto simp: less_Suc_eq)

lemma erase_at_split:
  "j < length xs \<Longrightarrow> xs = take j xs @ xs ! j # drop (Suc j) xs \<and> erase_at j xs = take j xs @ drop (Suc j) xs"
  by (simp add: erase_at_def id_take_nth_drop)

lemma set_erase_at:
  assumes "distinct xs" and "j < length xs"
  shows "set (erase_at j xs) = set xs - {xs ! j}" and "distinct (erase_at j xs)"
proof -
  from assms(2) have xs: "xs = take j xs @ xs ! j # drop (Suc j) xs"
    by (rule id_take_nth_drop)
  with assms(1) have d: "distinct (take j xs @ xs ! j # drop (Suc j) xs)" by simp
  then have "xs ! j \<notin> set (take j xs)" "xs ! j \<notin> set (drop (Suc j) xs)"
    by auto
  moreover have "set xs = set (take j xs) \<union> {xs ! j} \<union> set (drop (Suc j) xs)"
    by (subst xs) auto
  ultimately show "set (erase_at j xs) = set xs - {xs ! j}"
    by (auto simp: erase_at_def)
  from d show "distinct (erase_at j xs)"
    by (auto simp: erase_at_def)
qed

lemma init_inv: "replacer_inv (LRUKReplacer_init n kk)"
  by (simp add: replacer_inv_def LRUKReplacer_init_def evictable_count_def del: replicate_Suc)

lemma invD:
  assumes "replacer_inv r"
  shows "length (is_accessible r) = replacer_size r + 1"
    and "distinct (history_list r)" and "distinct (cache_list r)"
    and "history_map r = set (history_list r)" and "cache_map r = set (cache_list r)"
    and "\<And>f. f \<in> set (history_list r) \<longleftrightarrow> 0 < use_count r f \<and> use_count r f < replacer_k r"
    and "\<And>f. f \<in> set (cache_list r) \<longleftrightarrow> 0 < use_count r f \<and> replacer_k r \<le> use_count r f"
    and "\<And>f. 0 < use_count r f \<Longrightarrow> f \<le> replacer_size r"
    and "\<And>f. f \<le> replacer_size r \<Longrightarrow> is_accessible r ! f \<Longrightarrow> 0 < use_count r f"
    and "curr_size r = int (evictable_count r)"
  using assms unfolding replacer_inv_def by blast+

lemma RecordAccess_isl: "isl (RecordAccess f r) \<longleftrightarrow> \<not> frame_accepted f r"
  by (simp add: RecordAccess_def Let_def frame_accepted_def not_le)

lemma RecordAccess_InrD:
  assumes "RecordAccess f r = Inr r'"
  shows "f \<le> replacer_size r" and "r' = projr (RecordAccess f r)" and "frame_accepted f r"
proof -
  from assms have "\<not> isl (RecordAccess f r)" by simp
  then show a: "frame_accepted f r" by (simp add: RecordAccess_isl)
  then show "f \<le> replacer_size r" by (rule frame_accepted_le)
  from assms show "r' = projr (RecordAccess f r)" by simp
qed

lemma RecordAccess_fields0:
  assumes "frame_accepted f r"
  shows "is_accessible (projr (RecordAccess f r)) = is_accessible r"
    and "replacer_size (projr (RecordAccess f r)) = replacer_size r"
    and "replacer_k (projr (RecordAccess f r)) = replacer_k r"
    and "curr_size (projr (RecordAccess f r)) = curr_size r"
    and "use_count (projr (RecordAccess f r)) = (use_count r)(f := use_count r f + 1)"
  using assms by (simp_all add: RecordAccess_def Let_def frame_accepted_def)

lemma RecordAccess_fields:
  assumes "RecordAccess f r = Inr r'"
  shows "f \<le> replacer_size r" and "is_accessible r' = is_accessible r"
    and "replacer_size r' = replacer_size r" and "replacer_k r' = replacer_k r"
    and "curr_size r' = curr_size r"
    and "use_count r' = (use_count r)(f := use_count r f + 1)"
  using RecordAccess_InrD[OF assms] RecordAccess_fields0[of f r] by simp_all

lemma RecordAccess_lists0:
  assumes "replacer_inv r" and "frame_accepted f r"
  shows "history_list (projr (RecordAccess f r)) =
           (if use_count r f + 1 = replacer_k r then remove1 f (history_list r)
            else if use_count r f + 1 > replacer_k r then history_list r
            else if use_count r f = 0 then f # history_list r else history_list r)"
    and "cache_list (projr (RecordAccess f r)) =
           (if use_count r f + 1 \<ge> replacer_k r then f # remove1 f (cache_list r)
            else cache_list r)"
    and "history_map (projr (RecordAccess f r)) = set (history_list (projr (RecordAccess f r)))"
    and "cache_map (projr (RecordAccess f r)) = set (cache_list (projr (RecordAccess f r)))"
proof -
  note inv = invD[OF assms(1)]
  have hm: "f \<in> history_map r \<longleftrightarrow> 0 < use_count r f \<and> use_count r f < replacer_k r"
    using inv(4,6) by simp
  have cm: "f \<in> cache_map r \<longleftrightarrow> 0 < use_count r f \<and> replacer_k r \<le> use_count r f"
    using inv(5,7) by simp
  have nh: "\<not> (0 < use_count r f \<and> use_count r f < replacer_k r) \<Longrightarrow> remove1 f (history_list r) = history_list r"
    using inv(6)[of f] by (simp add: remove1_idem)
  have nc: "\<not> (0 < use_count r f \<and> replacer_k r \<le> use_count r f) \<Longrightarrow> remove1 f (cache_list r) = cache_list r"
    using inv(7)[of f] by (simp add: remove1_idem)
  show "history_list (projr (RecordAccess f r)) =
           (if use_count r f + 1 = replacer_k r then remove1 f (history_list r)
            else if use_count r f + 1 > replacer_k r then history_list r
            else if use_count r f = 0 then f # history_list r else history_list r)"
    using assms(2) nh by (auto simp: RecordAccess_def Let_def hm frame_accepted_def)
  show "cache_list (projr (RecordAccess f r)) =
           (if use_count r f + 1 \<ge> replacer_k r then f # remove1 f (cache_list r)
            else cache_list r)"
    using assms(2) nc by (auto simp: RecordAccess_def Let_def cm frame_accepted_def)
  show "history_map (projr (RecordAccess f r)) = set (history_list (projr (RecordAccess f r)))"
    using assms(2) inv(2,4) by (auto simp: RecordAccess_def Let_def frame_accepted_def)
  show "cache_map (projr (RecordAccess f r)) = set (cache_list (projr (RecordAccess f r)))"
    using assms(2) inv(3,5) by (auto simp: RecordAccess_def Let_def frame_accepted_def)
qed

lemma RecordAccess_lists:
  assumes "replacer_inv r" and "RecordAccess f r = Inr r'"
  shows "history_list r' =
           (if use_count r f + 1 = replacer_k r then remove1 f (history_list r)
            else if use_count r f + 1 > replacer_k r then history_list r
            else if use_count r f = 0 then f # history_list r else history_list r)"
    and "cache_list r' =
           (if use_count r f + 1 \<ge> replacer_k r then f # remove1 f (cache_list r)
            else cache_list r)"
    and "history_map r' = set (history_list r')" and "cache_map r' = set (cache_list r')"
  using RecordAccess_lists0[OF assms(1) RecordAccess_InrD(3)[OF assms(2)]]
  unfolding RecordAccess_InrD(2)[OF assms(2), symmetric] by blast+

lemma RecordAccess_inv:
  assumes "replacer_inv r" and "RecordAccess f r = Inr r'"
  shows "replacer_inv r'"
proof -
  note inv = invD[OF assms(1)]
  note fl = RecordAccess_fields[OF assms(2)]
  note ls = RecordAccess_lists[OF assms]
  have 1: "length (is_accessible r') = replacer_size r' + 1"
    using inv(1) fl by simp
  have 2: "distinct (history_list r')"
    using inv(2) inv(6)[of f] by (simp add: ls(1))
  have 3: "distinct (cache_list r')"
    using inv(3) by (simp add: ls(2))
  have 6: "g \<in> set (history_list r') \<longleftrightarrow> 0 < use_count r' g \<and> use_count r' g < replacer_k r'" for g
    using inv(6)[of g] inv(2) by (cases "g = f") (auto simp: ls(1) fl(4,6))
  have 7: "g \<in> set (cache_list r') \<longleftrightarrow> 0 < use_count r' g \<and> replacer_k r' \<le> use_count r' g" for g
    using inv(7)[of g] inv(3) by (cases "g = f") (auto simp: ls(2) fl(4,6))
  have 8: "0 < use_count r' g \<Longrightarrow> g \<le> replacer_size r'" for g
    using inv(8)[of g] fl(1) by (cases "g = f") (auto simp: fl(3,6))
  have 9: "g \<le> replacer_size r' \<Longrightarrow> is_accessible r' ! g \<Longrightarrow> 0 < use_count r' g" for g
    using inv(9)[of g] by (cases "g = f") (auto simp: fl(2,3,6))
  have 10: "curr_size r' = int (evictable_count r')"
    using inv(10) by (simp add: evictable_count_def fl(2,5))
  show ?thesis
    unfolding replacer_inv_def using 1 2 3 ls(3,4) 6 7 8 9 10 by blast
qed

subsection \<open>SetEvictable\<close>

lemma SetEvictable_isl: "isl (SetEvictable f b r) \<longleftrightarrow> \<not> frame_accepted f r"
  by (simp add: SetEvictable_def Let_def frame_accepted_def not_le)

lemma SetEvictable_InrD:
  assumes "SetEvictable f b r = Inr r'"
  shows "f \<le> replacer_size r" and "r' = projr (SetEvictable f b r)" and "frame_accepted f r"
proof -
  from assms have "\<not> isl (SetEvictable f b r)" by simp
  then show a: "frame_accepted f r" by (simp add: SetEvictable_isl)
  then show "f \<le> replacer_size r" by (rule frame_accepted_le)
  from assms show "r' = projr (SetEvictable f b r)" by simp
qed

lemma SetEvictable_unknown:
  "frame_accepted f r \<Longrightarrow> use_count r f = 0 \<Longrightarrow> SetEvictable f b r = Inr r"
  by (simp add: SetEvictable_def frame_accepted_def)

lemma SetEvictable_fields0:
  assumes "frame_accepted f r"
  shows "replacer_size (projr (SetEvictable f b r)) = replacer_size r"
    and "replacer_k (projr (SetEvictable f b r)) = replacer_k r"
    and "use_count (projr (SetEvictable f b r)) = use_count r"
    and "history_list (projr (SetEvictable f b r)) = history_list r"
    and "cache_list (projr (SetEvictable f b r)) = cache_list r"
    and "history_map (projr (SetEvictable f b r)) = history_map r"
    and "cache_map (projr (SetEvictable f b r)) = cache_map r"
    and "is_accessible (projr (SetEvictable f b r)) =
           (if use_count r f = 0 then is_accessible r else (is_accessible r)[f := b])"
    and "curr_size (projr (SetEvictable f b r)) =
           (if use_count r f = 0 \<or> is_accessible r ! f = b then curr_size r
            else if b then curr_size r + 1 else curr_size r - 1)"
  using assms by (auto simp add: SetEvictable_def Let_def frame_accepted_def)

lemma SetEvictable_inv:
  assumes "replacer_inv r" and "SetEvictable f b r = Inr r'"
  shows "replacer_inv r'"
proof -
  note inv = invD[OF assms(1)]
  note d = SetEvictable_InrD[OF assms(2)]
  note fl = SetEvictable_fields0[OF d(3), of b, folded d(2)]
  have flen: "f < length (is_accessible r)"
    using inv(1) d(1) by simp
  have 1: "length (is_accessible r') = replacer_size r' + 1"
    using inv(1) fl by simp
  have 9: "g \<le> replacer_size r' \<Longrightarrow> is_accessible r' ! g \<Longrightarrow> 0 < use_count r' g" for g
    using inv(9)[of g] inv(1) by (cases "g = f") (auto simp: fl split: if_splits)
  have 10: "curr_size r' = int (evictable_count r')"
    using inv(10) count_true_update[OF flen, of b]
    by (auto simp: evictable_count_def fl)
  show ?thesis
    unfolding replacer_inv_def
    using 1 9 10 inv(2-8) unfolding fl(1-7) by blast
qed

subsection \<open>Dropping a frame\<close>

lemma inv_drop_frame:
  assumes "replacer_inv r" and "f \<le> replacer_size r" and "is_accessible r ! f"
    and "replacer_size r' = replacer_size r" and "replacer_k r' = replacer_k r"
    and "is_accessible r' = (is_accessible r)[f := False]"
    and "use_count r' = (use_count r)(f := 0)"
    and "curr_size r' = curr_size r - 1"
    and "distinct (history_list r')" and "set (history_list r') = set (history_list r) - {f}"
    and "distinct (cache_list r')" and "set (cache_list r') = set (cache_list r) - {f}"
    and "history_map r' = set (history_list r')" and "cache_map r' = set (cache_list r')"
  shows "replacer_inv r'"
proof -
  note inv = invD[OF assms(1)]
  have flen: "f < length (is_accessible r)"
    using inv(1) assms(2) by simp
  have 1: "length (is_accessible r') = replacer_size r' + 1"
    using inv(1) assms(4,6) by simp
  have 6: "g \<in> set (history_list r') \<longleftrightarrow> 0 < use_count r' g \<and> use_count r' g < replacer_k r'" for g
    using inv(6)[of g] by (cases "g = f") (simp_all add: assms(5,7,10))
  have 7: "g \<in> set (cache_list r') \<longleftrightarrow> 0 < use_count r' g \<and> replacer_k r' \<le> use_count r' g" for g
    using inv(7)[of g] by (cases "g = f") (simp_all add: assms(5,7,12))
  have 8: "0 < use_count r' g \<Longrightarrow> g \<le> replacer_size r'" for g
    using inv(8)[of g] by (cases "g = f") (simp_all add: assms(4,7))
  have 9: "g \<le> replacer_size r' \<Longrightarrow> is_accessible r' ! g \<Longrightarrow> 0 < use_count r' g" for g
    using inv(9)[of g] inv(1) by (cases "g = f") (simp_all add: assms(4,6,7))
  have 10: "curr_size r' = int (evictable_count r')"
    using inv(10) count_true_update[OF flen, of False] assms(3)
    by (simp add: evictable_count_def assms(6,8))
  show ?thesis
    unfolding replacer_inv_def
    using 1 assms(9,11,13,14) 6 7 8 9 10 by blast
qed

subsection \<open>Remove\<close>

lemma Remove_frame_isl: "isl (Remove_frame f r) \<longleftrightarrow> \<not> frame_accepted f r"
  by (simp add: Remove_frame_def Let_def frame_accepted_def not_le)

lemma Remove_frame_InrD:
  assumes "Remove_frame f r = Inr r'"
  shows "f \<le> replacer_size r" and "r' = projr (Remove_frame f r)" and "frame_accepted f r"
proof -
  from assms have "\<not> isl (Remove_frame f r)" by simp
  then show a: "frame_accepted f r" by (simp add: Remove_frame_isl)
  then show "f \<le> replacer_size r" by (rule frame_accepted_le)
  from assms show "r' = projr (Remove_frame f r)" by simp
qed

lemma Remove_frame_noop:
  "frame_accepted f r \<Longrightarrow> \<not> is_accessible r ! f \<Longrightarrow> Remove_frame f r = Inr r"
  by (simp add: Remove_frame_def frame_accepted_def)

lemma Remove_frame_fields0:
  assumes "frame_accepted f r" and "is_accessible r ! f"
  shows "replacer_size (projr (Remove_frame f r)) = replacer_size r"
    and "replacer_k (projr (Remove_frame f r)) = replacer_k r"
    and "use_count (projr (Remove_frame f r)) = (use_count r)(f := 0)"
    and "is_accessible (projr (Remove_frame f r)) = (is_accessible r)[f := False]"
    and "curr_size (projr (Remove_frame f r)) = curr_size r - 1"
    and "history_list (projr (Remove_frame f r)) =
           (if use_count r f < replacer_k r then remove1 f (history_list r) else history_list r)"
    and "history_map (projr (Remove_frame f r)) =
           (if use_count r f < replacer_k r then history_map r - {f} else history_map r)"
    and "cache_list (projr (Remove_frame f r)) =
           (if use_count r f < replacer_k r then cache_list r else remove1 f (cache_list r))"
    and "cache_map (projr (Remove_frame f r)) =
           (if use_count r f < replacer_k r then cache_map r else cache_map r - {f})"
  using assms by (simp_all add: Remove_frame_def Let_def frame_accepted_def)

lemma Remove_frame_inv:
  assumes "replacer_inv r" and "Remove_frame f r = Inr r'"
  shows "replacer_inv r'"
proof (cases "is_accessible r ! f")
  case False
  with Remove_frame_noop[OF Remove_frame_InrD(3)[OF assms(2)]] assms show ?thesis by simp
next
  case True
  note inv = invD[OF assms(1)]
  note d = Remove_frame_InrD[OF assms(2)]
  note fl = Remove_frame_fields0[OF d(3) True, folded d(2)]
  have pos: "0 < use_count r f" using inv(9)[OF d(1) True] .
  show ?thesis
  proof (rule inv_drop_frame[OF assms(1) d(1) True fl(1,2,4,3,5)])
    show "distinct (history_list r')" using inv(2) by (simp add: fl(6))
    show "distinct (cache_list r')" using inv(3) by (simp add: fl(8))
    show "set (history_list r') = set (history_list r) - {f}"
      using inv(2) inv(6)[of f] by (auto simp: fl(6))
    show "set (cache_list r') = set (cache_list r) - {f}"
      using inv(3) inv(7)[of f] by (auto simp: fl(8))
    show "history_map r' = set (history_list r')"
      using inv(2,4) by (auto simp: fl(6,7))
    show "cache_map r' = set (cache_list r')"
      using inv(3,5) by (auto simp: fl(8,9))
  qed
qed

subsection \<open>Evict\<close>

lemma scan_back_all:
  "scan_back acc xs (length xs) = None \<longleftrightarrow> (\<forall>x\<in>set xs. \<not> acc ! x)"
  by (simp add: scan_back_None all_set_conv_all_nth)

lemma Evict_unfold:
  assumes "history_map r = set (history_list r)" and "cache_map r = set (cache_list r)"
  shows "Evict r =
     (case scan_back (is_accessible r) (history_list r) (length (history_list r)) of
        Some i \<Rightarrow>
          (Some (history_list r ! i),
           r\<lparr>curr_size := curr_size r - 1,
             is_accessible := (is_accessible r)[history_list r ! i := False],
             use_count := (use_count r)(history_list r ! i := 0),
             history_map := history_map r - {history_list r ! i},
             history_list := erase_at i (history_list r)\<rparr>)
      | None \<Rightarrow>
          (case scan_back (is_accessible r) (cache_list r) (length (cache_list r)) of
             Some i \<Rightarrow>
               (Some (cache_list r ! i),
                r\<lparr>curr_size := curr_size r - 1,
                  is_accessible := (is_accessible r)[cache_list r ! i := False],
                  use_count := (use_count r)(cache_list r ! i := 0),
                  cache_map := cache_map r - {cache_list r ! i},
                  cache_list := erase_at i (cache_list r)\<rparr>)
           | None \<Rightarrow> (None, r)))"
proof (cases "history_map r = {} \<and> cache_map r = {}")
  case True
  with assms have "history_list r = []" "cache_list r = []" by simp_all
  with True show ?thesis by (simp add: Evict_def)
next
  case False
  then have "(history_map r = {} \<and> cache_map r = {}) = False" by simp
  then show ?thesis by (simp only: Evict_def Let_def if_False)
qed

lemma Evict_cases:
  assumes "replacer_inv r"
  obtains
    (none) "Evict r = (None, r)"
      and "\<forall>x\<in>set (history_list r). \<not> is_accessible r ! x"
      and "\<forall>x\<in>set (cache_list r). \<not> is_accessible r ! x"
  | (hist) i where "i < length (history_list r)"
      and "is_accessible r ! (history_list r ! i)"
      and "\<forall>m. i < m \<and> m < length (history_list r) \<longrightarrow> \<not> is_accessible r ! (history_list r ! m)"
      and "Evict r = (Some (history_list r ! i),
           r\<lparr>curr_size := curr_size r - 1,
             is_accessible := (is_accessible r)[history_list r ! i := False],
             use_count := (use_count r)(history_list r ! i := 0),
             history_map := history_map r - {history_list r ! i},
             history_list := erase_at i (history_list r)\<rparr>)"
  | (cache) i where "\<forall>x\<in>set (history_list r). \<not> is_accessible r ! x"
      and "i < length (cache_list r)"
      and "is_accessible r ! (cache_list r ! i)"
      and "\<forall>m. i < m \<and> m < length (cache_list r) \<longrightarrow> \<not> is_accessible r ! (cache_list r ! m)"
      and "Evict r = (Some (cache_list r ! i),
           r\<lparr>curr_size := curr_size r - 1,
             is_accessible := (is_accessible r)[cache_list r ! i := False],
             use_count := (use_count r)(cache_list r ! i := 0),
             cache_map := cache_map r - {cache_list r ! i},
             cache_list := erase_at i (cache_list r)\<rparr>)"
proof -
  note inv = invD[OF assms]
  note u = Evict_unfold[OF inv(4,5)]
  show thesis
  proof (cases "scan_back (is_accessible r) (history_list r) (length (history_list r))")
    case (Some i)
    from scan_back_Some[OF Some] u Some show thesis
      by (intro hist[of i]) simp_all
  next
    case None
    then have nh: "\<forall>x\<in>set (history_list r). \<not> is_accessible r ! x"
      by (simp add: scan_back_all)
    show thesis
    proof (cases "scan_back (is_accessible r) (cache_list r) (length (cache_list r))")
      case (Some i)
      from scan_back_Some[OF Some] u Some None nh show thesis
        by (intro cache[of i]) simp_all
    next
      case None2: None
      then have "\<forall>x\<in>set (cache_list r). \<not> is_accessible r ! x"
        by (simp add: scan_back_all)
      with nh u None None2 show thesis
        by (intro none) simp_all
    qed
  qed
qed

lemma Evict_inv:
  assumes "replacer_inv r"
  shows "replacer_inv (snd (Evict r))"
  using assms
proof (cases rule: Evict_cases)
  case none
  with assms show ?thesis by simp
next
  case (hist i)
  note inv = invD[OF assms]
  let ?f = "history_list r ! i"
  from hist(1) have mem: "?f \<in> set (history_list r)" by simp
  with inv(6)[of ?f] have uc: "0 < use_count r ?f" "use_count r ?f < replacer_k r" by simp_all
  then have nc: "?f \<notin> set (cache_list r)" using inv(7)[of ?f] by simp
  have le: "?f \<le> replacer_size r" using inv(8)[OF uc(1)] .
  show ?thesis
    unfolding hist(4) snd_conv
  proof (rule inv_drop_frame[OF assms le hist(2)])
    show "set (history_list (r\<lparr>curr_size := curr_size r - 1,
             is_accessible := (is_accessible r)[?f := False],
             use_count := (use_count r)(?f := 0),
             history_map := history_map r - {?f},
             history_list := erase_at i (history_list r)\<rparr>)) = set (history_list r) - {?f}"
      using set_erase_at(1)[OF inv(2) hist(1)] by simp
    show "history_map (r\<lparr>curr_size := curr_size r - 1,
             is_accessible := (is_accessible r)[?f := False],
             use_count := (use_count r)(?f := 0),
             history_map := history_map r - {?f},
             history_list := erase_at i (history_list r)\<rparr>) =
          set (history_list (r\<lparr>curr_size := curr_size r - 1,
             is_accessible := (is_accessible r)[?f := False],
             use_count := (use_count r)(?f := 0),
             history_map := history_map r - {?f},
             history_list := erase_at i (history_list r)\<rparr>))"
      using set_erase_at(1)[OF inv(2) hist(1)] inv(4) by simp
  qed (use inv(3,5) nc set_erase_at(2)[OF inv(2) hist(1)] in simp_all)
next
  case (cache i)
  note inv = invD[OF assms]
  let ?f = "cache_list r ! i"
  from cache(2) have mem: "?f \<in> set (cache_list r)" by simp
  with inv(7)[of ?f] have uc: "0 < use_count r ?f" "replacer_k r \<le> use_count r ?f" by simp_all
  then have nh: "?f \<notin> set (history_list r)" using inv(6)[of ?f] by simp
  have le: "?f \<le> replacer_size r" using inv(8)[OF uc(1)] .
  show ?thesis
    unfolding cache(5) snd_conv
  proof (rule inv_drop_frame[OF assms le cache(3)])
    show "set (cache_list (r\<lparr>curr_size := curr_size r - 1,
             is_accessible := (is_accessible r)[?f := False],
             use_count := (use_count r)(?f := 0),
             cache_map := cache_map r - {?f},
             cache_list := erase_at i (cache_list r)\<rparr>)) = set (cache_list r) - {?f}"
      using set_erase_at(1)[OF inv(3) cache(2)] by simp
    show "cache_map (r\<lparr>curr_size := curr_size r - 1,
             is_accessible := (is_accessible r)[?f := False],
             use_count := (use_count r)(?f := 0),
             cache_map := cache_map r - {?f},
             cache_list := erase_at i (cache_list r)\<rparr>) =
          set (cache_list (r\<lparr>curr_size := curr_size r - 1,
             is_accessible := (is_accessible r)[?f := False],
             use_count := (use_count r)(?f := 0),
             cache_map := cache_map r - {?f},
             cache_list := erase_at i (cache_list r)\<rparr>))"
      using set_erase_at(1)[OF inv(3) cache(2)] inv(5) by simp
  qed (use inv(2,4) nh set_erase_at(2)[OF inv(3) cache(2)] in simp_all)
qed

lemma step_inv: "replacer_inv r \<Longrightarrow> replacer_inv (replacer_step x r)"
proof (cases x)
  case (OpRecordAccess f)
  assume "replacer_inv r"
  with OpRecordAccess show ?thesis
    by (cases "RecordAccess f r") (simp_all add: RecordAccess_inv)
next
  case (OpSetEvictable f b)
  assume "replacer_inv r"
  with OpSetEvictable show ?thesis
    by (cases "SetEvictable f b r") (simp_all add: SetEvictable_inv)
next
  case OpEvict
  assume "replacer_inv r"
  with OpEvict show ?thesis by (simp add: Evict_inv)
next
  case (OpRemove f)
  assume "replacer_inv r"
  with OpRemove show ?thesis
    by (cases "Remove_frame f r") (simp_all add: Remove_frame_inv)
qed

lemma run_inv: "replacer_inv r \<Longrightarrow> replacer_inv (replacer_run xs r)"
  by (induction xs arbitrary: r) (simp_all add: step_inv)

lemma reachable_inv: "replacer_inv (replacer_run xs (LRUKReplacer_init n kk))"
  by (rule run_inv) (rule init_inv)

lemma step_params:
  "replacer_size (replacer_step x r) = replacer_size r \<and> replacer_k (replacer_step x r) = replacer_k r"
proof (cases x)
  case (OpRecordAccess f)
  then show ?thesis
    using RecordAccess_fields0(2,3)[of f r] RecordAccess_isl[of f r]
    by (cases "RecordAccess f r") auto
next
  case (OpSetEvictable f b)
  then show ?thesis
    using SetEvictable_fields0(1,2)[of f r b] SetEvictable_isl[of f b r]
    by (cases "SetEvictable f b r") auto
next
  case OpEvict
  then show ?thesis
    by (simp add: Evict_def Let_def split: option.splits)
next
  case (OpRemove f)
  show ?thesis
  proof (cases "frame_accepted f r \<and> is_accessible r ! f")
    case True
    with OpRemove show ?thesis
      using Remove_frame_fields0(1,2)[of f r] Remove_frame_isl[of f r]
      by (cases "Remove_frame f r") auto
  next
    case False
    with OpRemove show ?thesis
      by (auto simp: Remove_frame_def frame_accepted_def)
  qed
qed

lemma run_params:
  "replacer_size (replacer_run xs r) = replacer_size r \<and> replacer_k (replacer_run xs r) = replacer_k r"
  by (induction xs arbitrary: r) (simp_all add: step_params)

lemma reachable_params:
  "replacer_size (replacer_run xs (LRUKReplacer_init n kk)) = n"
  "replacer_k (replacer_run xs (LRUKReplacer_init n kk)) = kk"
  by (simp_all add: run_params) (simp_all add: LRUKReplacer_init_def)

subsection \<open>The concrete run\<close>

lemma example_cast: "static_cast_frame_id 7 = 7"
  by (simp add: static_cast_frame_id_small)

text \<open>
  From \<open>2 ^ 31\<close> frames on the conversion in the guard wraps around: a replacer of
  \<open>2 ^ 31\<close> frames rejects every frame id.
\<close>

lemma guard_wraps:
  "RecordAccess f (LRUKReplacer_init (2 ^ 31) kk) = Inl StdException"
  "SetEvictable f b (LRUKReplacer_init (2 ^ 31) kk) = Inl StdException"
  "Remove_frame f (LRUKReplacer_init (2 ^ 31) kk) = Inl StdException"
  by (simp_all add: RecordAccess_def SetEvictable_def Remove_frame_def LRUKReplacer_init_def
      static_cast_frame_id_def int32_def)

lemmas replacer_eval =
  example_ops_def LRUKReplacer_init_def RecordAccess_def SetEvictable_def
  Evict_def Remove_frame_def erase_at_def Let_def example_cast

lemma example_replacer_flags:
  "is_accessible example_replacer = [False, False, True, True, True, False, False, False]"
proof -
  have "is_accessible example_replacer = (replicate 8 False)[2 := True, 3 := True, 4 := True]"
    by (simp add: example_replacer_def replacer_eval)
  then show ?thesis by (simp add: numeral_eq_Suc)
qed

lemma example_replacer_fields:
  "history_list example_replacer = [4, 3]"
  "cache_list example_replacer = [2]"
  "history_map example_replacer = {4, 3}"
  "cache_map example_replacer = {2}"
  "use_count example_replacer 2 = 2"
  "use_count example_replacer 3 = 1"
  "use_count example_replacer 4 = 1"
  "use_count example_replacer 5 = 0"
  "use_count example_replacer 7 = 0"
  "replacer_size example_replacer = 7"
  "replacer_k example_replacer = 2"
  by (simp_all add: example_replacer_def replacer_eval insert_Diff_if)

lemma example_evict: "fst (Evict example_replacer) = Some 3"
  by (simp add: Evict_def example_replacer_fields example_replacer_flags Let_def)

lemma example_evict_pair: "Evict example_replacer = (Some 3, snd (Evict example_replacer))"
  using example_evict by (simp add: prod_eq_iff)

subsection \<open>Timed runs\<close>

lemma timed_invD:
  assumes "timed_inv s"
  shows "replacer_inv (rep s)"
    and "\<And>g. length (accesses s g) = use_count (rep s) g"
    and "\<And>g t. t \<in> set (accesses s g) \<Longrightarrow> t < clock s"
    and "sorted_wrt (\<lambda>x y. first_access s y < first_access s x) (history_list (rep s))"
    and "sorted_wrt (\<lambda>x y. latest_access s y < latest_access s x) (cache_list (rep s))"
  using assms unfolding timed_inv_def by blast+

lemma timed_step_fields [simp]:
  "clock (timed_step x s) = Suc (clock s)"
  "rep (timed_step x s) = replacer_step x (rep s)"
  by (simp_all add: timed_step_def Let_def)

lemma rep_timed_run: "rep (timed_run xs s) = replacer_run xs (rep s)"
  by (induction xs arbitrary: s) simp_all

lemma timed_step_accesses_same:
  assumes "timed_inv s" and "use_count (replacer_step x (rep s)) = use_count (rep s)"
  shows "accesses (timed_step x s) = accesses s"
proof
  fix g
  from timed_invD(2)[OF assms(1), of g]
  show "accesses (timed_step x s) g = accesses s g"
    by (auto simp: timed_step_def Let_def assms(2))
qed

lemma timed_step_accesses_reset:
  assumes "timed_inv s" and "use_count (replacer_step x (rep s)) = (use_count (rep s))(f := 0)"
  shows "accesses (timed_step x s) = (accesses s)(f := [])"
proof
  fix g
  from timed_invD(2)[OF assms(1), of g]
  show "accesses (timed_step x s) g = ((accesses s)(f := [])) g"
    by (auto simp: timed_step_def Let_def assms(2))
qed

lemma timed_step_accesses_record:
  assumes "timed_inv s"
    and "use_count (replacer_step x (rep s)) = (use_count (rep s))(f := use_count (rep s) f + 1)"
  shows "accesses (timed_step x s) = (accesses s)(f := clock s # accesses s f)"
proof
  fix g
  from timed_invD(2)[OF assms(1), of g]
  show "accesses (timed_step x s) g = ((accesses s)(f := clock s # accesses s f)) g"
    by (auto simp: timed_step_def Let_def assms(2))
qed

lemma filter_notin: "f \<notin> set xs \<Longrightarrow> filter (\<lambda>x. x \<noteq> f) xs = xs"
  by (induction xs) auto

lemma remove1_filter: "distinct xs \<Longrightarrow> remove1 f xs = filter (\<lambda>x. x \<noteq> f) xs"
  by (induction xs) (auto simp: filter_notin)

lemma erase_at_filter:
  assumes "distinct xs" and "i < length xs"
  shows "erase_at i xs = filter (\<lambda>x. x \<noteq> xs ! i) xs"
proof -
  from assms(2) have xs: "xs = take i xs @ xs ! i # drop (Suc i) xs"
    by (rule id_take_nth_drop)
  with assms(1) have d: "distinct (take i xs @ xs ! i # drop (Suc i) xs)" by simp
  then have "xs ! i \<notin> set (take i xs)" "xs ! i \<notin> set (drop (Suc i) xs)" by auto
  then have "filter (\<lambda>x. x \<noteq> xs ! i) (take i xs @ xs ! i # drop (Suc i) xs)
             = take i xs @ drop (Suc i) xs"
    by (simp add: filter_notin)
  with xs show ?thesis by (simp add: erase_at_def)
qed

text \<open>An order on the frames of a list that only reads the accesses of these frames.\<close>

lemma sorted_wrt_accesses:
  assumes "sorted_wrt (\<lambda>x y. h (a y) < h (a x)) xs" and "\<And>x. x \<in> set xs \<Longrightarrow> a' x = a x"
  shows "sorted_wrt (\<lambda>x y. h (a' y) < (h (a' x) :: nat)) xs"
  using assms(1)
  by (rule sorted_wrt_mono_rel[rotated]) (simp add: assms(2))

lemma timed_invI:
  assumes "replacer_inv (rep s)"
    and "\<And>g. length (accesses s g) = use_count (rep s) g"
    and "\<And>g t. t \<in> set (accesses s g) \<Longrightarrow> t < clock s"
    and "sorted_wrt (\<lambda>x y. last (accesses s y) < last (accesses s x)) (history_list (rep s))"
    and "sorted_wrt (\<lambda>x y. hd (accesses s y) < hd (accesses s x)) (cache_list (rep s))"
  shows "timed_inv s"
  using assms unfolding timed_inv_def first_access_def latest_access_def by blast

text \<open>A step that takes frame \<open>f\<close> out of the lists and resets its count.\<close>

lemma timed_inv_drop:
  assumes "timed_inv s" and "replacer_inv (replacer_step x (rep s))"
    and "use_count (replacer_step x (rep s)) = (use_count (rep s))(f := 0)"
    and "history_list (replacer_step x (rep s)) = filter (\<lambda>g. g \<noteq> f) (history_list (rep s))"
    and "cache_list (replacer_step x (rep s)) = filter (\<lambda>g. g \<noteq> f) (cache_list (rep s))"
  shows "timed_inv (timed_step x s)"
proof (rule timed_invI)
  note t = timed_invD[OF assms(1)]
  note a = timed_step_accesses_reset[OF assms(1,3)]
  show "replacer_inv (rep (timed_step x s))" using assms(2) by simp
  show "length (accesses (timed_step x s) g) = use_count (rep (timed_step x s)) g" for g
    using t(2)[of g] by (simp add: a assms(3))
  show "u < clock (timed_step x s)" if "u \<in> set (accesses (timed_step x s) g)" for g u
    using that t(3)[of u g] by (auto simp: a split: if_splits)
  have "sorted_wrt (\<lambda>x y. last (accesses s y) < last (accesses s x))
          (filter (\<lambda>g. g \<noteq> f) (history_list (rep s)))"
    using t(4) unfolding first_access_def by (rule sorted_wrt_filter)
  then show "sorted_wrt (\<lambda>xa y. last (accesses (timed_step x s) y) < last (accesses (timed_step x s) xa))
          (history_list (rep (timed_step x s)))"
    unfolding timed_step_fields assms(4)
    by (rule sorted_wrt_accesses) (simp add: a)
  have "sorted_wrt (\<lambda>x y. hd (accesses s y) < hd (accesses s x))
          (filter (\<lambda>g. g \<noteq> f) (cache_list (rep s)))"
    using t(5) unfolding latest_access_def by (rule sorted_wrt_filter)
  then show "sorted_wrt (\<lambda>xa y. hd (accesses (timed_step x s) y) < hd (accesses (timed_step x s) xa))
          (cache_list (rep (timed_step x s)))"
    unfolding timed_step_fields assms(5)
    by (rule sorted_wrt_accesses) (simp add: a)
qed

text \<open>A step that changes neither the counts nor the lists.\<close>

lemma timed_inv_same:
  assumes "timed_inv s" and "replacer_inv (replacer_step x (rep s))"
    and "use_count (replacer_step x (rep s)) = use_count (rep s)"
    and "history_list (replacer_step x (rep s)) = history_list (rep s)"
    and "cache_list (replacer_step x (rep s)) = cache_list (rep s)"
  shows "timed_inv (timed_step x s)"
proof (rule timed_invI)
  note t = timed_invD[OF assms(1)]
  note a = timed_step_accesses_same[OF assms(1,3)]
  show "replacer_inv (rep (timed_step x s))" using assms(2) by simp
  show "length (accesses (timed_step x s) g) = use_count (rep (timed_step x s)) g" for g
    using t(2)[of g] by (simp add: a assms(3))
  show "u < clock (timed_step x s)" if "u \<in> set (accesses (timed_step x s) g)" for g u
    using that t(3)[of u g] by (auto simp: a)
  show "sorted_wrt (\<lambda>xa y. last (accesses (timed_step x s) y) < last (accesses (timed_step x s) xa))
          (history_list (rep (timed_step x s)))"
    using t(4) by (simp add: a assms(4) first_access_def)
  show "sorted_wrt (\<lambda>xa y. hd (accesses (timed_step x s) y) < hd (accesses (timed_step x s) xa))
          (cache_list (rep (timed_step x s)))"
    using t(5) by (simp add: a assms(5) latest_access_def)
qed

lemma timed_inv_noop:
  assumes "timed_inv s" and "replacer_step x (rep s) = rep s"
  shows "timed_inv (timed_step x s)"
  using assms(1) by (rule timed_inv_same) (simp_all add: assms(2) timed_invD(1)[OF assms(1)])

lemma timed_step_record:
  assumes "timed_inv s" and le: "frame_accepted f (rep s)"
  shows "timed_inv (timed_step (OpRecordAccess f) s)"
proof (rule timed_invI)
  let ?x = "OpRecordAccess f"
  let ?r = "rep s"
  note t = timed_invD[OF assms(1)]
  note inv = invD[OF t(1)]
  obtain r' where r': "RecordAccess f ?r = Inr r'"
    using le RecordAccess_isl[of f ?r] by (cases "RecordAccess f ?r") auto
  then have st: "replacer_step ?x ?r = r'" by simp
  note fl = RecordAccess_fields[OF r']
  note ls = RecordAccess_lists[OF t(1) r']
  have uc: "use_count (replacer_step ?x ?r) = (use_count ?r)(f := use_count ?r f + 1)"
    by (simp add: r' fl(6))
  note a = timed_step_accesses_record[OF assms(1) uc]
  have past: "u < clock s" if "u \<in> set (accesses s g)" for u g
    using t(3)[OF that] .
  have nonempty: "accesses s g \<noteq> []" if "0 < use_count ?r g" for g
    using t(2)[of g] that by auto
  show "replacer_inv (rep (timed_step ?x s))"
    using step_inv[OF t(1), of ?x] by simp
  show "length (accesses (timed_step ?x s) g) = use_count (rep (timed_step ?x s)) g" for g
    using t(2)[of g] by (cases "g = f") (simp_all add: a r' fl(6))
  show "u < clock (timed_step ?x s)" if "u \<in> set (accesses (timed_step ?x s) g)" for g u
    using that t(3)[of u g] by (auto simp: a split: if_splits)
  show "sorted_wrt (\<lambda>x y. last (accesses (timed_step ?x s) y) < last (accesses (timed_step ?x s) x))
          (history_list (rep (timed_step ?x s)))"
  proof -
    have old: "sorted_wrt (\<lambda>x y. last (accesses s y) < last (accesses s x)) (history_list ?r)"
      using t(4) by (simp add: first_access_def)
    have keep: "last (accesses (timed_step ?x s) g) = last (accesses s g)"
      if "g \<in> set (history_list ?r)" for g
      using inv(6)[of g] that nonempty[of g] by (auto simp: a)
    consider (promote) "use_count ?r f + 1 = replacer_k ?r"
      | (hot) "use_count ?r f + 1 > replacer_k ?r"
      | (first) "use_count ?r f + 1 < replacer_k ?r" "use_count ?r f = 0"
      | (again) "use_count ?r f + 1 < replacer_k ?r" "use_count ?r f \<noteq> 0"
      by linarith
    then show ?thesis
    proof cases
      case promote
      then have h: "history_list (rep (timed_step ?x s)) = filter (\<lambda>g. g \<noteq> f) (history_list ?r)"
        using inv(2) by (simp add: r' ls(1) remove1_filter)
      have "sorted_wrt (\<lambda>x y. last (accesses s y) < last (accesses s x))
              (filter (\<lambda>g. g \<noteq> f) (history_list ?r))"
        using old by (rule sorted_wrt_filter)
      then show ?thesis
        unfolding h by (rule sorted_wrt_accesses) (simp add: a)
    next
      case hot
      then have h: "history_list (rep (timed_step ?x s)) = history_list ?r"
        by (simp add: r' ls(1))
      show ?thesis
        unfolding h using old by (rule sorted_wrt_accesses) (simp add: keep)
    next
      case first
      then have h: "history_list (rep (timed_step ?x s)) = f # history_list ?r"
        by (simp add: r' ls(1))
      from first(2) t(2)[of f] have e: "accesses s f = []" by simp
      have tail: "sorted_wrt (\<lambda>x y. last (accesses (timed_step ?x s) y) < last (accesses (timed_step ?x s) x))
                    (history_list ?r)"
        using old by (rule sorted_wrt_accesses) (simp add: keep)
      have "last (accesses (timed_step ?x s) g) < last (accesses (timed_step ?x s) f)"
        if "g \<in> set (history_list ?r)" for g
      proof -
        from that inv(6)[of g] have "accesses s g \<noteq> []" by (simp add: nonempty)
        then have "last (accesses s g) \<in> set (accesses s g)" by simp
        from past[OF this] keep[OF that] show ?thesis by (simp add: a e)
      qed
      with tail show ?thesis unfolding h by simp
    next
      case again
      then have h: "history_list (rep (timed_step ?x s)) = history_list ?r"
        by (simp add: r' ls(1))
      show ?thesis
        unfolding h using old by (rule sorted_wrt_accesses) (simp add: keep)
    qed
  qed
  show "sorted_wrt (\<lambda>x y. hd (accesses (timed_step ?x s) y) < hd (accesses (timed_step ?x s) x))
          (cache_list (rep (timed_step ?x s)))"
  proof -
    have old: "sorted_wrt (\<lambda>x y. hd (accesses s y) < hd (accesses s x)) (cache_list ?r)"
      using t(5) by (simp add: latest_access_def)
    show ?thesis
    proof (cases "use_count ?r f + 1 \<ge> replacer_k ?r")
      case True
      then have c: "cache_list (rep (timed_step ?x s)) = f # filter (\<lambda>g. g \<noteq> f) (cache_list ?r)"
        using inv(3) by (simp add: r' ls(2) remove1_filter)
      have "sorted_wrt (\<lambda>x y. hd (accesses s y) < hd (accesses s x))
              (filter (\<lambda>g. g \<noteq> f) (cache_list ?r))"
        using old by (rule sorted_wrt_filter)
      then have tail: "sorted_wrt (\<lambda>x y. hd (accesses (timed_step ?x s) y) < hd (accesses (timed_step ?x s) x))
                    (filter (\<lambda>g. g \<noteq> f) (cache_list ?r))"
        by (rule sorted_wrt_accesses) (simp add: a)
      have "hd (accesses (timed_step ?x s) g) < hd (accesses (timed_step ?x s) f)"
        if "g \<in> set (cache_list ?r)" "g \<noteq> f" for g
      proof -
        from that(1) inv(7)[of g] have "accesses s g \<noteq> []" by (simp add: nonempty)
        then have "hd (accesses s g) \<in> set (accesses s g)" by simp
        from past[OF this] that(2) show ?thesis by (simp add: a)
      qed
      with tail show ?thesis unfolding c by simp
    next
      case False
      then have c: "cache_list (rep (timed_step ?x s)) = cache_list ?r"
        by (simp add: r' ls(2))
      from False inv(7)[of f] have "f \<notin> set (cache_list ?r)" by simp
      then have same: "accesses (timed_step ?x s) g = accesses s g" if "g \<in> set (cache_list ?r)" for g
        using that by (auto simp: a)
      show ?thesis
        unfolding c using old by (rule sorted_wrt_accesses) (simp add: same)
    qed
  qed
qed

lemma timed_step_inv:
  assumes "timed_inv s"
  shows "timed_inv (timed_step x s)"
proof (cases x)
  case (OpRecordAccess f)
  show ?thesis
  proof (cases "frame_accepted f (rep s)")
    case True
    with assms show ?thesis unfolding OpRecordAccess by (rule timed_step_record)
  next
    case False
    then have "replacer_step x (rep s) = rep s"
      by (simp add: OpRecordAccess RecordAccess_def frame_accepted_def)
    with assms show ?thesis by (rule timed_inv_noop)
  qed
next
  case (OpSetEvictable f b)
  note t = timed_invD[OF assms]
  show ?thesis
  proof (cases "frame_accepted f (rep s)")
    case True
    then obtain r' where r': "SetEvictable f b (rep s) = Inr r'"
      using SetEvictable_isl[of f b "rep s"] by (cases "SetEvictable f b (rep s)") auto
    note fl = SetEvictable_fields0[OF True, of b, folded SetEvictable_InrD(2)[OF r']]
    from r' have st: "replacer_step x (rep s) = r'" by (simp add: OpSetEvictable)
    show ?thesis
      using assms
      by (rule timed_inv_same) (simp_all add: OpSetEvictable r' fl SetEvictable_inv[OF t(1) r'])
  next
    case False
    then have "replacer_step x (rep s) = rep s"
      by (simp add: OpSetEvictable SetEvictable_def frame_accepted_def)
    with assms show ?thesis by (rule timed_inv_noop)
  qed
next
  case OpEvict
  note t = timed_invD[OF assms]
  note inv = invD[OF t(1)]
  have I': "replacer_inv (replacer_step x (rep s))"
    using step_inv[OF t(1)] .
  from t(1) show ?thesis
  proof (cases rule: Evict_cases)
    case none
    then have "replacer_step x (rep s) = rep s" by (simp add: OpEvict)
    with assms show ?thesis by (rule timed_inv_noop)
  next
    case (hist i)
    let ?f = "history_list (rep s) ! i"
    from hist(1) have "?f \<in> set (history_list (rep s))" by simp
    with inv(6)[of ?f] inv(7)[of ?f] have nc: "?f \<notin> set (cache_list (rep s))" by simp
    show ?thesis
      using assms I'
    proof (rule timed_inv_drop[where f = ?f])
      show "history_list (replacer_step x (rep s)) = filter (\<lambda>g. g \<noteq> ?f) (history_list (rep s))"
        using erase_at_filter[OF inv(2) hist(1)] by (simp add: OpEvict hist(4))
      show "cache_list (replacer_step x (rep s)) = filter (\<lambda>g. g \<noteq> ?f) (cache_list (rep s))"
        using filter_notin[OF nc] by (simp add: OpEvict hist(4))
    qed (simp add: OpEvict hist(4))
  next
    case (cache i)
    let ?f = "cache_list (rep s) ! i"
    from cache(2) have "?f \<in> set (cache_list (rep s))" by simp
    with inv(6)[of ?f] inv(7)[of ?f] have nh: "?f \<notin> set (history_list (rep s))" by simp
    show ?thesis
      using assms I'
    proof (rule timed_inv_drop[where f = ?f])
      show "cache_list (replacer_step x (rep s)) = filter (\<lambda>g. g \<noteq> ?f) (cache_list (rep s))"
        using erase_at_filter[OF inv(3) cache(2)] by (simp add: OpEvict cache(5))
      show "history_list (replacer_step x (rep s)) = filter (\<lambda>g. g \<noteq> ?f) (history_list (rep s))"
        using filter_notin[OF nh] by (simp add: OpEvict cache(5))
    qed (simp add: OpEvict cache(5))
  qed
next
  case (OpRemove f)
  note t = timed_invD[OF assms]
  note inv = invD[OF t(1)]
  have I': "replacer_inv (replacer_step x (rep s))"
    using step_inv[OF t(1)] .
  show ?thesis
  proof (cases "frame_accepted f (rep s) \<and> is_accessible (rep s) ! f")
    case False
    then have "replacer_step x (rep s) = rep s"
      by (auto simp: OpRemove Remove_frame_def frame_accepted_def)
    with assms show ?thesis by (rule timed_inv_noop)
  next
    case True
    then have ok: "frame_accepted f (rep s)" and acc: "is_accessible (rep s) ! f" by simp_all
    from ok have le: "f \<le> replacer_size (rep s)" by (rule frame_accepted_le)
    obtain r' where r': "Remove_frame f (rep s) = Inr r'"
      using ok Remove_frame_isl[of f "rep s"] by (cases "Remove_frame f (rep s)") auto
    note fl = Remove_frame_fields0[OF ok acc, folded Remove_frame_InrD(2)[OF r']]
    from r' have st: "replacer_step x (rep s) = r'" by (simp add: OpRemove)
    have pos: "0 < use_count (rep s) f" using inv(9)[OF le acc] .
    show ?thesis
      using assms I'
    proof (rule timed_inv_drop[where f = f])
      show "use_count (replacer_step x (rep s)) = (use_count (rep s))(f := 0)"
        by (simp add: OpRemove r' fl(3))
      show "history_list (replacer_step x (rep s)) = filter (\<lambda>g. g \<noteq> f) (history_list (rep s))"
      proof (cases "use_count (rep s) f < replacer_k (rep s)")
        case True
        then show ?thesis using inv(2) by (simp add: OpRemove r' fl(6) remove1_filter)
      next
        case False
        with inv(6)[of f] have "f \<notin> set (history_list (rep s))" by simp
        from filter_notin[OF this] False show ?thesis by (simp add: OpRemove r' fl(6))
      qed
      show "cache_list (replacer_step x (rep s)) = filter (\<lambda>g. g \<noteq> f) (cache_list (rep s))"
      proof (cases "use_count (rep s) f < replacer_k (rep s)")
        case True
        with inv(7)[of f] have "f \<notin> set (cache_list (rep s))" by simp
        from filter_notin[OF this] True show ?thesis by (simp add: OpRemove r' fl(8))
      next
        case False
        then show ?thesis using inv(3) by (simp add: OpRemove r' fl(8) remove1_filter)
      qed
    qed
  qed
qed

lemma timed_run_inv: "timed_inv s \<Longrightarrow> timed_inv (timed_run xs s)"
  by (induction xs arbitrary: s) (simp_all add: timed_step_inv)

lemma timed_init_inv: "timed_inv (timed_init n kk)"
  by (simp add: timed_inv_def timed_init_def init_inv) (simp add: LRUKReplacer_init_def)

lemma timed_reachable_inv: "timed_inv (timed_run xs (timed_init n kk))"
  by (rule timed_run_inv) (rule timed_init_inv)

lemma timed_reachable_rep:
  "rep (timed_run xs (timed_init n kk)) = replacer_run xs (LRUKReplacer_init n kk)"
  by (simp add: rep_timed_run timed_init_def)

subsection \<open>The choice of Evict\<close>

lemma Evict_choice:
  assumes I: "replacer_inv r" and n: "replacer_size r = n"
  shows "(fst (Evict r) \<noteq> None \<longleftrightarrow> (\<exists>f\<le>n. is_accessible r ! f)) \<and>
    (\<forall>f r'. Evict r = (Some f, r') \<longrightarrow>
       (if \<exists>x\<in>set (history_list r). is_accessible r ! x
        then \<exists>pre suf. history_list r = pre @ f # suf \<and> (\<forall>x\<in>set suf. \<not> is_accessible r ! x)
               \<and> history_list r' = pre @ suf \<and> cache_list r' = cache_list r
        else \<exists>pre suf. cache_list r = pre @ f # suf \<and> (\<forall>x\<in>set suf. \<not> is_accessible r ! x)
               \<and> cache_list r' = pre @ suf \<and> history_list r' = history_list r) \<and>
       is_accessible r ! f \<and>
       f \<notin> set (history_list r') \<and> f \<notin> set (cache_list r') \<and>
       use_count r' f = 0 \<and> \<not> is_accessible r' ! f \<and> curr_size r' = curr_size r - 1)"
proof -
  note inv = invD[OF I]
  have I': "replacer_inv (snd (Evict r))"
    using I by (rule Evict_inv)
  have listed: "f \<in> set (history_list r) \<union> set (cache_list r)" if "f \<le> n" "is_accessible r ! f" for f
    using inv(9)[of f] inv(6)[of f] inv(7)[of f] that n by auto
  have ranged: "f \<le> n" if "f \<in> set (history_list r) \<union> set (cache_list r)" for f
    using inv(8)[of f] inv(6)[of f] inv(7)[of f] that n by auto
  have 1: "fst (Evict r) \<noteq> None \<longleftrightarrow> (\<exists>f\<le>n. is_accessible r ! f)"
    using I
  proof (cases rule: Evict_cases)
    case none
    with listed show ?thesis by auto
  next
    case (hist i)
    from hist(1) have "history_list r ! i \<in> set (history_list r)" by simp
    with ranged hist(2,4) show ?thesis by auto
  next
    case (cache i)
    from cache(2) have "cache_list r ! i \<in> set (cache_list r)" by simp
    with ranged cache(3,5) show ?thesis by auto
  qed
  have 2: "(if \<exists>x\<in>set (history_list r). is_accessible r ! x
        then \<exists>pre suf. history_list r = pre @ f # suf \<and> (\<forall>x\<in>set suf. \<not> is_accessible r ! x)
               \<and> history_list r' = pre @ suf \<and> cache_list r' = cache_list r
        else \<exists>pre suf. cache_list r = pre @ f # suf \<and> (\<forall>x\<in>set suf. \<not> is_accessible r ! x)
               \<and> cache_list r' = pre @ suf \<and> history_list r' = history_list r) \<and>
       is_accessible r ! f \<and>
       f \<notin> set (history_list r') \<and> f \<notin> set (cache_list r') \<and>
       use_count r' f = 0 \<and> \<not> is_accessible r' ! f \<and> curr_size r' = curr_size r - 1"
    if ev: "Evict r = (Some f, r')" for f r'
    using I
  proof (cases rule: Evict_cases)
    case none
    with ev show ?thesis by simp
  next
    case (hist i)
    let ?hl = "history_list r"
    from hist(4) ev have f: "f = ?hl ! i"
      and r': "r' = r\<lparr>curr_size := curr_size r - 1,
             is_accessible := (is_accessible r)[?hl ! i := False],
             use_count := (use_count r)(?hl ! i := 0),
             history_map := history_map r - {?hl ! i},
             history_list := erase_at i ?hl\<rparr>"
      by simp_all
    from hist(1) have mem: "f \<in> set ?hl" by (simp add: f)
    then have ex: "\<exists>x\<in>set ?hl. is_accessible r ! x" using hist(2) f by blast
    have sp: "?hl = take i ?hl @ f # drop (Suc i) ?hl" "erase_at i ?hl = take i ?hl @ drop (Suc i) ?hl"
      using erase_at_split[OF hist(1)] f by simp_all
    have suf: "\<forall>x\<in>set (drop (Suc i) ?hl). \<not> is_accessible r ! x"
      using hist(1,3) by (auto simp: in_set_conv_nth)
    have a: "\<exists>pre suf. ?hl = pre @ f # suf \<and> (\<forall>x\<in>set suf. \<not> is_accessible r ! x)
               \<and> history_list r' = pre @ suf \<and> cache_list r' = cache_list r"
      using sp suf by (intro exI[of _ "take i ?hl"] exI[of _ "drop (Suc i) ?hl"]) (simp add: r')
    have "f \<le> n" using ranged mem by simp
    with inv(1) n have flen: "f < length (is_accessible r)" by simp
    have nh: "f \<notin> set (history_list r')"
      using set_erase_at(1)[OF inv(2) hist(1)] by (simp add: r' f)
    have nc: "f \<notin> set (cache_list r')"
      using inv(6)[of f] inv(7)[of f] mem by (simp add: r')
    have acc: "is_accessible r ! f" using hist(2) by (simp add: f)
    have post: "use_count r' f = 0 \<and> \<not> is_accessible r' ! f \<and> curr_size r' = curr_size r - 1"
      using flen by (simp add: r' f)
    show ?thesis
      unfolding if_P[OF ex] using a acc nh nc post by blast
  next
    case (cache i)
    let ?cl = "cache_list r"
    from cache(5) ev have f: "f = ?cl ! i"
      and r': "r' = r\<lparr>curr_size := curr_size r - 1,
             is_accessible := (is_accessible r)[?cl ! i := False],
             use_count := (use_count r)(?cl ! i := 0),
             cache_map := cache_map r - {?cl ! i},
             cache_list := erase_at i ?cl\<rparr>"
      by simp_all
    from cache(2) have mem: "f \<in> set ?cl" by (simp add: f)
    have nex: "\<not> (\<exists>x\<in>set (history_list r). is_accessible r ! x)" using cache(1) by blast
    have sp: "?cl = take i ?cl @ f # drop (Suc i) ?cl" "erase_at i ?cl = take i ?cl @ drop (Suc i) ?cl"
      using erase_at_split[OF cache(2)] f by simp_all
    have suf: "\<forall>x\<in>set (drop (Suc i) ?cl). \<not> is_accessible r ! x"
      using cache(2,4) by (auto simp: in_set_conv_nth)
    have a: "\<exists>pre suf. ?cl = pre @ f # suf \<and> (\<forall>x\<in>set suf. \<not> is_accessible r ! x)
               \<and> cache_list r' = pre @ suf \<and> history_list r' = history_list r"
      using sp suf by (intro exI[of _ "take i ?cl"] exI[of _ "drop (Suc i) ?cl"]) (simp add: r')
    have "f \<le> n" using ranged mem by simp
    with inv(1) n have flen: "f < length (is_accessible r)" by simp
    have nc: "f \<notin> set (cache_list r')"
      using set_erase_at(1)[OF inv(3) cache(2)] by (simp add: r' f)
    have nh: "f \<notin> set (history_list r')"
      using inv(6)[of f] inv(7)[of f] mem by (simp add: r')
    have acc: "is_accessible r ! f" using cache(3) by (simp add: f)
    have post: "use_count r' f = 0 \<and> \<not> is_accessible r' ! f \<and> curr_size r' = curr_size r - 1"
      using flen by (simp add: r' f)
    show ?thesis
      unfolding if_not_P[OF nex] using a acc nh nc post by blast
  qed
  from 1 2 show ?thesis by blast
qed

lemma sorted_wrt_before:
  "sorted_wrt P (pre @ f # suf) \<Longrightarrow> x \<in> set pre \<Longrightarrow> P x f"
  by (simp add: sorted_wrt_append)

subsection \<open>The second concrete run\<close>

lemma example_timed_fields:
  "history_list (rep example_timed) = []"
  "cache_list (rep example_timed) = [2, 3]"
  "history_map (rep example_timed) = {}"
  "cache_map (rep example_timed) = {2, 3}"
  "replacer_k (rep example_timed) = 2"
  "accesses example_timed 2 = [4, 1, 0]"
  "accesses example_timed 3 = [3, 2]"
  by (simp_all add: example_timed_def example_timed_ops_def timed_init_def timed_step_def
      replacer_eval insert_Diff_if insert_commute)

lemma example_timed_flags:
  "is_accessible (rep example_timed) = [False, False, True, True, False, False, False, False]"
proof -
  have "is_accessible (rep example_timed) = (replicate 8 False)[2 := True, 3 := True]"
    by (simp add: example_timed_def example_timed_ops_def timed_init_def timed_step_def
        replacer_eval)
  then show ?thesis by (simp add: numeral_eq_Suc)
qed

lemma example_replacer_timed:
  "example_replacer = rep (timed_run example_ops (timed_init 7 2))"
  by (simp add: timed_reachable_rep example_replacer_def)

section \<open>Claims about the replacer\<close>

text \<open>
  C3 as it is stated fails where it calls the order of the cache list "LRU by
  k-th-most-recent access". With \<open>k = 2\<close>, frame 2 accessed at the times 0, 1 and 4 and
  frame 3 at the times 2 and 3, both evictable and both in the cache list: the second most
  recent access of frame 2 (time 1) is older than that of frame 3 (time 2), and \<open>Evict\<close>
  returns frame 3, the frame whose most recent access is the older one.
\<close>

theorem evict_victim_counterexample:
  "history_list (rep example_timed) = [] \<and> cache_list (rep example_timed) = [2, 3] \<and>
   is_accessible (rep example_timed) ! 2 \<and> is_accessible (rep example_timed) ! 3 \<and>
   kth_latest_access example_timed 2 = 1 \<and> kth_latest_access example_timed 3 = 2 \<and>
   fst (Evict (rep example_timed)) = Some 3"
  by (simp add: example_timed_fields example_timed_flags kth_latest_access_def Evict_def Let_def)

text \<open>
  C3, amended: in every state that a sequence of replacer operations reaches from the
  constructor, \<open>Evict\<close> returns a victim exactly when some frame is evictable. If the
  history list has an evictable entry, the victim is its evictable entry closest to the
  back, which is the one with the earliest first access. Only otherwise the victim is the
  evictable entry closest to the back of the cache list, which is the one whose most
  recent access is the oldest (the cache list is in the order of the most recent access,
  not of the k-th most recent one). The victim is removed from its list and the other list
  is unchanged; its use count is 0, its evictable flag false, and \<open>curr_size_\<close> is one
  less.
\<close>

theorem evict_victim:
  assumes "s = timed_run ops (timed_init n kk)" and "r = rep s"
  shows "(fst (Evict r) \<noteq> None \<longleftrightarrow> (\<exists>f\<le>n. is_accessible r ! f)) \<and>
    (\<forall>f r'. Evict r = (Some f, r') \<longrightarrow>
       (if \<exists>x\<in>set (history_list r). is_accessible r ! x
        then (\<exists>pre suf. history_list r = pre @ f # suf \<and> (\<forall>x\<in>set suf. \<not> is_accessible r ! x)
                \<and> history_list r' = pre @ suf) \<and>
             cache_list r' = cache_list r \<and>
             (\<forall>x\<in>set (history_list r). is_accessible r ! x \<and> x \<noteq> f \<longrightarrow>
                first_access s f < first_access s x)
        else (\<exists>pre suf. cache_list r = pre @ f # suf \<and> (\<forall>x\<in>set suf. \<not> is_accessible r ! x)
                \<and> cache_list r' = pre @ suf) \<and>
             history_list r' = history_list r \<and>
             (\<forall>x\<in>set (cache_list r). is_accessible r ! x \<and> x \<noteq> f \<longrightarrow>
                latest_access s f < latest_access s x)) \<and>
       is_accessible r ! f \<and>
       f \<notin> set (history_list r') \<and> f \<notin> set (cache_list r') \<and>
       use_count r' f = 0 \<and> \<not> is_accessible r' ! f \<and> curr_size r' = curr_size r - 1)"
proof -
  have T: "timed_inv s"
    unfolding assms(1) by (rule timed_reachable_inv)
  note t = timed_invD[OF T]
  have I: "replacer_inv r" using t(1) assms(2) by simp
  have n: "replacer_size r = n"
    unfolding assms by (simp add: timed_reachable_rep reachable_params)
  note C = Evict_choice[OF I n]
  have 2: "(if \<exists>x\<in>set (history_list r). is_accessible r ! x
        then (\<exists>pre suf. history_list r = pre @ f # suf \<and> (\<forall>x\<in>set suf. \<not> is_accessible r ! x)
                \<and> history_list r' = pre @ suf) \<and>
             cache_list r' = cache_list r \<and>
             (\<forall>x\<in>set (history_list r). is_accessible r ! x \<and> x \<noteq> f \<longrightarrow>
                first_access s f < first_access s x)
        else (\<exists>pre suf. cache_list r = pre @ f # suf \<and> (\<forall>x\<in>set suf. \<not> is_accessible r ! x)
                \<and> cache_list r' = pre @ suf) \<and>
             history_list r' = history_list r \<and>
             (\<forall>x\<in>set (cache_list r). is_accessible r ! x \<and> x \<noteq> f \<longrightarrow>
                latest_access s f < latest_access s x)) \<and>
       is_accessible r ! f \<and>
       f \<notin> set (history_list r') \<and> f \<notin> set (cache_list r') \<and>
       use_count r' f = 0 \<and> \<not> is_accessible r' ! f \<and> curr_size r' = curr_size r - 1"
    if ev: "Evict r = (Some f, r')" for f r'
  proof -
    note E = C[THEN conjunct2, rule_format, OF ev]
    note post = E[THEN conjunct2]
    show ?thesis
    proof (cases "\<exists>x\<in>set (history_list r). is_accessible r ! x")
      case True
      from E[THEN conjunct1] True obtain pre suf where
        d: "history_list r = pre @ f # suf" and q: "\<forall>x\<in>set suf. \<not> is_accessible r ! x"
        and h': "history_list r' = pre @ suf" and c': "cache_list r' = cache_list r"
        by auto
      have "first_access s f < first_access s x"
        if "x \<in> set (history_list r)" "is_accessible r ! x" "x \<noteq> f" for x
      proof -
        from that q have "x \<in> set pre" by (auto simp: d)
        with t(4) show ?thesis
          unfolding assms(2)[symmetric] d by (rule sorted_wrt_before)
      qed
      then have "\<forall>x\<in>set (history_list r). is_accessible r ! x \<and> x \<noteq> f \<longrightarrow>
                first_access s f < first_access s x"
        by blast
      moreover have "\<exists>pre suf. history_list r = pre @ f # suf \<and> (\<forall>x\<in>set suf. \<not> is_accessible r ! x)
                \<and> history_list r' = pre @ suf"
        using d q h' by blast
      ultimately show ?thesis
        unfolding if_P[OF True] using c' post by blast
    next
      case False
      from E[THEN conjunct1] False obtain pre suf where
        d: "cache_list r = pre @ f # suf" and q: "\<forall>x\<in>set suf. \<not> is_accessible r ! x"
        and c': "cache_list r' = pre @ suf" and h': "history_list r' = history_list r"
        by auto
      have "latest_access s f < latest_access s x"
        if "x \<in> set (cache_list r)" "is_accessible r ! x" "x \<noteq> f" for x
      proof -
        from that q have "x \<in> set pre" by (auto simp: d)
        with t(5) show ?thesis
          unfolding assms(2)[symmetric] d by (rule sorted_wrt_before)
      qed
      then have "\<forall>x\<in>set (cache_list r). is_accessible r ! x \<and> x \<noteq> f \<longrightarrow>
                latest_access s f < latest_access s x"
        by blast
      moreover have "\<exists>pre suf. cache_list r = pre @ f # suf \<and> (\<forall>x\<in>set suf. \<not> is_accessible r ! x)
                \<and> cache_list r' = pre @ suf"
        using d q c' by blast
      ultimately show ?thesis
        unfolding if_not_P[OF False] using h' post by blast
    qed
  qed
  from C[THEN conjunct1] 2 show ?thesis by blast
qed

theorem evict_victim_witness:
  "fst (Evict example_replacer) = Some 3 \<and>
   (\<exists>f\<le>7. is_accessible example_replacer ! f) \<and>
   (\<exists>pre suf. history_list example_replacer = pre @ 3 # suf
      \<and> (\<forall>x\<in>set suf. \<not> is_accessible example_replacer ! x)
      \<and> history_list (snd (Evict example_replacer)) = pre @ suf) \<and>
   cache_list (snd (Evict example_replacer)) = cache_list example_replacer \<and>
   first_access (timed_run example_ops (timed_init 7 2)) 3
     < first_access (timed_run example_ops (timed_init 7 2)) 4 \<and>
   use_count (snd (Evict example_replacer)) 3 = 0 \<and>
   \<not> is_accessible (snd (Evict example_replacer)) ! 3 \<and>
   curr_size (snd (Evict example_replacer)) = curr_size example_replacer - 1"
proof -
  note L = evict_victim [OF refl example_replacer_timed]
  note L1 = L [THEN conjunct1]
  note L2 = L [THEN conjunct2, rule_format, OF example_evict_pair]
  have x: "\<exists>x\<in>set (history_list example_replacer). is_accessible example_replacer ! x"
    by (simp add: example_replacer_fields example_replacer_flags)
  from L1 example_evict have 1: "\<exists>f\<le>7. is_accessible example_replacer ! f" by simp
  note L3 = L2 [unfolded if_P [OF x]]
  note order = L3 [THEN conjunct1, THEN conjunct2, THEN conjunct2, rule_format, of 4]
  have 2: "first_access (timed_run example_ops (timed_init 7 2)) 3
     < first_access (timed_run example_ops (timed_init 7 2)) 4"
    by (rule order) (simp_all add: example_replacer_fields example_replacer_flags)
  from example_evict 1 2 L3 show ?thesis by (intro conjI) (elim conjE, assumption)+
qed

text \<open>
  C4, list discipline of \<open>RecordAccess\<close>, in every reachable state of a replacer of
  fewer than \<open>2 ^ 31\<close> frames and for every frame id from 0 to \<open>num_frames\<close> (every id
  below \<open>num_frames\<close> is one): the operation returns normally and the use count grows by
  one. When the new count is below \<open>k\<close> the frame is in the history list, pushed at the
  front if this was its first access and left where it was otherwise. When the new count
  is \<open>k\<close> the frame leaves the history list and is the new front of the cache list. When
  the new count is above \<open>k\<close> the frame is moved to the front of the cache list.
\<close>

theorem record_access_lists:
  assumes "r = replacer_run ops (LRUKReplacer_init n kk)" and "f \<le> n" and "n < 2 ^ 31"
  shows "\<exists>r'. RecordAccess f r = Inr r' \<and>
       use_count r' f = use_count r f + 1 \<and>
       (use_count r' f < kk \<longrightarrow>
          f \<in> set (history_list r') \<and>
          history_list r' = (if use_count r f = 0 then f # history_list r else history_list r) \<and>
          cache_list r' = cache_list r) \<and>
       (use_count r' f = kk \<longrightarrow>
          history_list r' = remove1 f (history_list r) \<and> f \<notin> set (history_list r') \<and>
          cache_list r' = f # cache_list r) \<and>
       (use_count r' f > kk \<longrightarrow>
          cache_list r' = f # remove1 f (cache_list r) \<and>
          (0 < use_count r f \<longrightarrow> f \<in> set (cache_list r)) \<and>
          history_list r' = history_list r \<and> f \<notin> set (history_list r'))"
proof -
  have I: "replacer_inv r"
    unfolding assms(1) by (rule reachable_inv)
  note inv = invD[OF I]
  have n: "replacer_size r = n" and k: "replacer_k r = kk"
    unfolding assms(1) by (rule reachable_params)+
  from assms(2,3) n have le: "frame_accepted f r" by (simp add: frame_accepted_iff)
  then obtain r' where r': "RecordAccess f r = Inr r'"
    using RecordAccess_isl[of f r] by (cases "RecordAccess f r") auto
  note fl = RecordAccess_fields[OF r']
  note ls = RecordAccess_lists[OF I r', unfolded k]
  have uc: "use_count r' f = use_count r f + 1" by (simp add: fl(6))
  have a: "f \<in> set (history_list r') \<and>
          history_list r' = (if use_count r f = 0 then f # history_list r else history_list r) \<and>
          cache_list r' = cache_list r" if that: "use_count r' f < kk"
  proof -
    from that uc have lt: "use_count r f + 1 < kk" by simp
    then have h: "history_list r' = (if use_count r f = 0 then f # history_list r else history_list r)"
      and c: "cache_list r' = cache_list r"
      by (simp_all add: ls(1,2))
    have "f \<in> set (history_list r')"
    proof (cases "use_count r f = 0")
      case True
      with h show ?thesis by simp
    next
      case False
      with lt k have "f \<in> set (history_list r)" by (simp add: inv(6))
      with h False show ?thesis by simp
    qed
    with h c show ?thesis by simp
  qed
  have b: "history_list r' = remove1 f (history_list r) \<and> f \<notin> set (history_list r') \<and>
          cache_list r' = f # cache_list r" if that: "use_count r' f = kk"
  proof -
    from that uc have eq: "use_count r f + 1 = kk" by simp
    then have h: "history_list r' = remove1 f (history_list r)"
      and c: "cache_list r' = f # remove1 f (cache_list r)"
      by (simp_all add: ls(1,2))
    from eq k have "f \<notin> set (cache_list r)" by (simp add: inv(7))
    then have "remove1 f (cache_list r) = cache_list r" by (rule remove1_idem)
    moreover have "f \<notin> set (history_list r')"
      using inv(2) by (simp add: h)
    ultimately show ?thesis using h c by simp
  qed
  have c: "cache_list r' = f # remove1 f (cache_list r) \<and>
          (0 < use_count r f \<longrightarrow> f \<in> set (cache_list r)) \<and>
          history_list r' = history_list r \<and> f \<notin> set (history_list r')" if "use_count r' f > kk"
  proof -
    from that uc have gt: "use_count r f + 1 > kk" by simp
    then have h: "history_list r' = history_list r"
      and c: "cache_list r' = f # remove1 f (cache_list r)"
      by (simp_all add: ls(1,2))
    from gt k have "f \<notin> set (history_list r)" by (simp add: inv(6))
    moreover from gt k have "0 < use_count r f \<longrightarrow> f \<in> set (cache_list r)" by (simp add: inv(7))
    ultimately show ?thesis using h c by simp
  qed
  have a': "use_count r' f < kk \<longrightarrow>
          f \<in> set (history_list r') \<and>
          history_list r' = (if use_count r f = 0 then f # history_list r else history_list r) \<and>
          cache_list r' = cache_list r"
    using a by (rule impI)
  have b': "use_count r' f = kk \<longrightarrow>
          history_list r' = remove1 f (history_list r) \<and> f \<notin> set (history_list r') \<and>
          cache_list r' = f # cache_list r"
    using b by (rule impI)
  have c': "use_count r' f > kk \<longrightarrow>
          cache_list r' = f # remove1 f (cache_list r) \<and>
          (0 < use_count r f \<longrightarrow> f \<in> set (cache_list r)) \<and>
          history_list r' = history_list r \<and> f \<notin> set (history_list r')"
    using c by (rule impI)
  show ?thesis
    by (intro exI[of _ r'] conjI; fact r' uc a' b' c')
qed

theorem record_access_lists_witness:
  "(7::nat) \<le> 7 \<and> (7::nat) < 2 ^ 31 \<and>
   (\<exists>r'. RecordAccess 3 example_replacer = Inr r' \<and> use_count r' 3 = 2 \<and>
      history_list r' = [4] \<and> cache_list r' = [3, 2]) \<and>
   (\<exists>r'. RecordAccess 7 example_replacer = Inr r' \<and> use_count r' 7 = 1 \<and>
      history_list r' = [7, 4, 3] \<and> cache_list r' = [2]) \<and>
   (\<exists>r'. RecordAccess 2 example_replacer = Inr r' \<and> use_count r' 2 = 3 \<and>
      history_list r' = [4, 3] \<and> cache_list r' = [2])"
proof -
  have a: "\<exists>r'. RecordAccess 3 example_replacer = Inr r' \<and> use_count r' 3 = 2 \<and>
      history_list r' = [4] \<and> cache_list r' = [3, 2]"
    using record_access_lists [OF example_replacer_def, of 3]
    by (clarsimp simp: example_replacer_fields)
  have b: "\<exists>r'. RecordAccess 7 example_replacer = Inr r' \<and> use_count r' 7 = 1 \<and>
      history_list r' = [7, 4, 3] \<and> cache_list r' = [2]"
    using record_access_lists [OF example_replacer_def, of 7]
    by (clarsimp simp: example_replacer_fields)
  have c: "\<exists>r'. RecordAccess 2 example_replacer = Inr r' \<and> use_count r' 2 = 3 \<and>
      history_list r' = [4, 3] \<and> cache_list r' = [2]"
    using record_access_lists [OF example_replacer_def, of 2]
    by (clarsimp simp: example_replacer_fields)
  from a b c show ?thesis by simp
qed

text \<open>
  C8 as it is stated fails at \<open>frame_id = num_frames\<close>: with 7 frames, none of
  \<open>RecordAccess\<close>, \<open>SetEvictable\<close>, \<open>Remove\<close> throws at frame id 7.
\<close>

theorem replacer_out_of_range_counterexample:
  "(7::nat) \<ge> 7 \<and> RecordAccess 7 (LRUKReplacer_init 7 2) \<noteq> Inl StdException
   \<and> SetEvictable 7 True (LRUKReplacer_init 7 2) \<noteq> Inl StdException
   \<and> Remove_frame 7 (LRUKReplacer_init 7 2) \<noteq> Inl StdException"
  by (simp add: RecordAccess_def SetEvictable_def Remove_frame_def LRUKReplacer_init_def Let_def
      example_cast)

text \<open>
  C8, amended: in every reachable state of a replacer of fewer than \<open>2 ^ 31\<close> frames, and
  for a frame id that is not negative, \<open>RecordAccess\<close>, \<open>SetEvictable\<close> and \<open>Remove\<close>
  throw (a \<open>std::exception\<close>) exactly when \<open>frame_id > num_frames\<close>, and return
  normally for every \<open>frame_id \<le> num_frames\<close>. The guard of the three operations is
  \<open>frame_id > static_cast<frame_id_t>(replacer_size_)\<close>, and the constructor sizes the
  flags vector for the ids \<open>0 .. num_frames\<close>. (From \<open>2 ^ 31\<close> frames on the conversion
  of the guard wraps around: lemma \<open>guard_wraps\<close>.)
\<close>

theorem replacer_out_of_range:
  assumes "r = replacer_run ops (LRUKReplacer_init num_frames kk)" and "num_frames < 2 ^ 31"
  shows "(RecordAccess f r = Inl StdException \<longleftrightarrow> num_frames < f) \<and>
         ((\<exists>r'. RecordAccess f r = Inr r') \<longleftrightarrow> f \<le> num_frames) \<and>
         (SetEvictable f b r = Inl StdException \<longleftrightarrow> num_frames < f) \<and>
         ((\<exists>r'. SetEvictable f b r = Inr r') \<longleftrightarrow> f \<le> num_frames) \<and>
         (Remove_frame f r = Inl StdException \<longleftrightarrow> num_frames < f) \<and>
         ((\<exists>r'. Remove_frame f r = Inr r') \<longleftrightarrow> f \<le> num_frames)"
proof -
  have n: "replacer_size r = num_frames"
    unfolding assms(1) by (rule reachable_params)
  from assms(2) n have a: "frame_accepted g r \<longleftrightarrow> g \<le> num_frames" for g
    by (simp add: frame_accepted_iff)
  have e: "x = Inl StdException \<longleftrightarrow> isl x" for x :: "replacer_error + LRUKReplacer"
    by (cases x) (auto intro: replacer_error.exhaust)
  have i: "(\<exists>r'. x = Inr r') \<longleftrightarrow> \<not> isl x" for x :: "replacer_error + LRUKReplacer"
    by (cases x) auto
  show ?thesis
    unfolding e i RecordAccess_isl SetEvictable_isl Remove_frame_isl a by auto
qed

theorem replacer_out_of_range_witness:
  "RecordAccess 8 example_replacer = Inl StdException \<and>
   (\<exists>r'. RecordAccess 7 example_replacer = Inr r') \<and>
   (\<exists>r'. SetEvictable 7 True example_replacer = Inr r') \<and>
   Remove_frame 9 example_replacer = Inl StdException"
  using replacer_out_of_range [OF example_replacer_def, of 8]
    replacer_out_of_range [OF example_replacer_def, of 7 True]
    replacer_out_of_range [OF example_replacer_def, of 9]
  by simp

text \<open>
  C9, the law of \<open>curr_size_\<close>: after every sequence of replacer operations \<open>Size\<close>
  returns the number of frames whose evictable flag is set. In a replacer of fewer than
  \<open>2 ^ 31\<close> frames, where every frame id from 0 to \<open>num_frames\<close> passes the guard of
  \<open>SetEvictable\<close> and \<open>Remove\<close>: \<open>SetEvictable\<close> changes
  nothing when the use count of the frame is 0, and otherwise sets the flag and moves
  \<open>curr_size_\<close> by one only when the flag changes. \<open>Evict\<close> and \<open>Remove\<close> take one off
  \<open>curr_size_\<close> when they clear the flag of a frame, and change nothing otherwise.
\<close>

theorem curr_size_law:
  assumes "r = replacer_run ops (LRUKReplacer_init n kk)"
  shows "Size r = int (evictable_count r) \<and>
    (\<forall>f b. f \<le> n \<and> n < 2 ^ 31 \<longrightarrow>
       (\<exists>r'. SetEvictable f b r = Inr r' \<and>
          (use_count r f = 0 \<longrightarrow> r' = r) \<and>
          (use_count r f \<noteq> 0 \<longrightarrow>
             is_accessible r' = (is_accessible r)[f := b] \<and>
             curr_size r' =
               (if is_accessible r ! f = b then curr_size r
                else if b then curr_size r + 1 else curr_size r - 1)))) \<and>
    (\<forall>f r'. Evict r = (Some f, r') \<longrightarrow>
       is_accessible r ! f \<and> \<not> is_accessible r' ! f \<and> curr_size r' = curr_size r - 1) \<and>
    (\<forall>r'. Evict r = (None, r') \<longrightarrow> r' = r) \<and>
    (\<forall>f. f \<le> n \<and> n < 2 ^ 31 \<longrightarrow>
       (\<exists>r'. Remove_frame f r = Inr r' \<and>
          (if is_accessible r ! f
           then \<not> is_accessible r' ! f \<and> curr_size r' = curr_size r - 1
           else r' = r)))"
proof -
  have I: "replacer_inv r"
    unfolding assms by (rule reachable_inv)
  note inv = invD[OF I]
  have n: "replacer_size r = n"
    unfolding assms by (rule reachable_params)
  have 1: "Size r = int (evictable_count r)"
    using inv(10) by (simp add: Size_def)
  have 2: "\<exists>r'. SetEvictable f b r = Inr r' \<and>
          (use_count r f = 0 \<longrightarrow> r' = r) \<and>
          (use_count r f \<noteq> 0 \<longrightarrow>
             is_accessible r' = (is_accessible r)[f := b] \<and>
             curr_size r' =
               (if is_accessible r ! f = b then curr_size r
                else if b then curr_size r + 1 else curr_size r - 1))"
    if "f \<le> n \<and> n < 2 ^ 31" for f b
  proof -
    from that n have le: "frame_accepted f r" by (simp add: frame_accepted_iff)
    then obtain r' where r': "SetEvictable f b r = Inr r'"
      using SetEvictable_isl[of f b r] by (cases "SetEvictable f b r") auto
    note fl = SetEvictable_fields0[OF le, of b, folded SetEvictable_InrD(2)[OF r']]
    show ?thesis
      using r' SetEvictable_unknown[OF le, of b] fl(8,9) by auto
  qed
  have 3: "is_accessible r ! f \<and> \<not> is_accessible r' ! f \<and> curr_size r' = curr_size r - 1"
    if "Evict r = (Some f, r')" for f r'
    using I
  proof (cases rule: Evict_cases)
    case none
    with that show ?thesis by simp
  next
    case (hist i)
    from hist(1) have "history_list r ! i \<in> set (history_list r)" by simp
    with inv(6)[of "history_list r ! i"] inv(8)[of "history_list r ! i"] inv(1)
    have "history_list r ! i < length (is_accessible r)" by simp
    with hist that show ?thesis by auto
  next
    case (cache i)
    from cache(2) have "cache_list r ! i \<in> set (cache_list r)" by simp
    with inv(7)[of "cache_list r ! i"] inv(8)[of "cache_list r ! i"] inv(1)
    have "cache_list r ! i < length (is_accessible r)" by simp
    with cache that show ?thesis by auto
  qed
  have 4: "r' = r" if "Evict r = (None, r')" for r'
    using I by (cases rule: Evict_cases) (use that in simp_all)
  have 5: "\<exists>r'. Remove_frame f r = Inr r' \<and>
          (if is_accessible r ! f
           then \<not> is_accessible r' ! f \<and> curr_size r' = curr_size r - 1
           else r' = r)" if "f \<le> n \<and> n < 2 ^ 31" for f
  proof (cases "is_accessible r ! f")
    case False
    with that n show ?thesis by (simp add: Remove_frame_noop frame_accepted_iff)
  next
    case True
    from that n have le: "frame_accepted f r" by (simp add: frame_accepted_iff)
    then obtain r' where r': "Remove_frame f r = Inr r'"
      using Remove_frame_isl[of f r] by (cases "Remove_frame f r") auto
    note fl = Remove_frame_fields0[OF le True, folded Remove_frame_InrD(2)[OF r']]
    from that n inv(1) have "f < length (is_accessible r)" by simp
    with True r' fl(4,5) show ?thesis by simp
  qed
  from 1 2 3 4 5 show ?thesis by blast
qed

theorem curr_size_law_witness:
  "Size example_replacer = 3 \<and>
   (\<exists>r'. SetEvictable 4 False example_replacer = Inr r' \<and> curr_size r' = 2) \<and>
   (\<exists>r'. SetEvictable 5 True example_replacer = Inr r' \<and> r' = example_replacer) \<and>
   curr_size (snd (Evict example_replacer)) = 2 \<and>
   (\<exists>r'. Remove_frame 3 example_replacer = Inr r' \<and> curr_size r' = 2)"
proof -
  note L = curr_size_law [OF example_replacer_def]
  note L1 = L [THEN conjunct1]
  note L2 = L [THEN conjunct2, THEN conjunct1, rule_format]
  note L3 = L [THEN conjunct2, THEN conjunct2, THEN conjunct1, rule_format]
  note L5 = L [THEN conjunct2, THEN conjunct2, THEN conjunct2, THEN conjunct2, rule_format]
  have "evictable_count example_replacer = 3"
    by (simp add: evictable_count_def example_replacer_flags)
  with L1 have s: "Size example_replacer = 3" by simp
  then have c: "curr_size example_replacer = 3" by (simp add: Size_def)
  have a: "\<exists>r'. SetEvictable 4 False example_replacer = Inr r' \<and> curr_size r' = 2"
    using L2 [of 4 False] by (auto simp: example_replacer_fields example_replacer_flags c)
  have b: "\<exists>r'. SetEvictable 5 True example_replacer = Inr r' \<and> r' = example_replacer"
    using L2 [of 5 True] by (auto simp: example_replacer_fields)
  have d: "curr_size (snd (Evict example_replacer)) = 2"
    using L3 [OF example_evict_pair] c by simp
  have e: "\<exists>r'. Remove_frame 3 example_replacer = Inr r' \<and> curr_size r' = 2"
    using L5 [of 3] by (auto simp: example_replacer_flags c)
  from s a b d e show ?thesis by (intro conjI)
qed

section \<open>Properties of the buffer pool manager\<close>

subsection \<open>The shared statements\<close>

lemma frame_update_fields [simp]:
  "pool_size (frame_update f g s) = pool_size s"
  "pages (frame_update f g s) = (pages s)[f := g (pages s ! f)]"
  "page_table (frame_update f g s) = page_table s"
  "free_list (frame_update f g s) = free_list s"
  "replacer (frame_update f g s) = replacer s"
  "next_page_id (frame_update f g s) = next_page_id s"
  "disk (frame_update f g s) = disk s"
  "trace (frame_update f g s) = trace s"
  by (simp_all add: frame_update_def)

lemma disk_write_frame_fields [simp]:
  "pool_size (disk_write_frame f s) = pool_size s"
  "pages (disk_write_frame f s) = pages s"
  "page_table (disk_write_frame f s) = page_table s"
  "free_list (disk_write_frame f s) = free_list s"
  "replacer (disk_write_frame f s) = replacer s"
  "next_page_id (disk_write_frame f s) = next_page_id s"
  "disk (disk_write_frame f s) = (disk s)(page_id (pages s ! f) := data (pages s ! f))"
  "trace (disk_write_frame f s) = trace s @ [WritePage (page_id (pages s ! f)) (data (pages s ! f))]"
  by (simp_all add: disk_write_frame_def)

lemma disk_read_frame_fields [simp]:
  "pool_size (disk_read_frame p f s) = pool_size s"
  "pages (disk_read_frame p f s) = (pages s)[f := (pages s ! f)\<lparr>data := disk s p\<rparr>]"
  "page_table (disk_read_frame p f s) = page_table s"
  "free_list (disk_read_frame p f s) = free_list s"
  "replacer (disk_read_frame p f s) = replacer s"
  "next_page_id (disk_read_frame p f s) = next_page_id s"
  "disk (disk_read_frame p f s) = disk s"
  "trace (disk_read_frame p f s) = trace s @ [ReadPage p]"
  by (simp_all add: disk_read_frame_def)

lemma table_erase_fields [simp]:
  "pool_size (table_erase p s) = pool_size s"
  "pages (table_erase p s) = pages s"
  "page_table (table_erase p s) = (page_table s)(p := None)"
  "free_list (table_erase p s) = free_list s"
  "replacer (table_erase p s) = replacer s"
  "next_page_id (table_erase p s) = next_page_id s"
  "disk (table_erase p s) = disk s"
  "trace (table_erase p s) = trace s @ [TableErase p]"
  by (simp_all add: table_erase_def)

lemma table_set_fields [simp]:
  "pool_size (table_set p f s) = pool_size s"
  "pages (table_set p f s) = pages s"
  "page_table (table_set p f s) = (page_table s)(p \<mapsto> f)"
  "free_list (table_set p f s) = free_list s"
  "replacer (table_set p f s) = replacer s"
  "next_page_id (table_set p f s) = next_page_id s"
  "disk (table_set p f s) = disk s"
  "trace (table_set p f s) = trace s @ [TableSet p f]"
  by (simp_all add: table_set_def)

lemma nth_update_same_field:
  "(\<And>x. pr (g x) = pr x) \<Longrightarrow> pr ((xs[f := g (xs ! f)]) ! i) = pr (xs ! i)"
  by (cases "f < length xs"; cases "i = f") (simp_all add: list_update_beyond)

lemma bpm_invD:
  assumes "bpm_inv s"
  shows "length (pages s) = pool_size s"
    and "replacer_size (replacer s) = pool_size s"
    and "replacer_inv (replacer s)"
    and "\<And>f. f \<in> set (free_list s) \<Longrightarrow> f < pool_size s"
    and "\<And>p f. page_table s p = Some f \<Longrightarrow> f < pool_size s"
    and "\<And>f. f \<le> pool_size s \<Longrightarrow> is_accessible (replacer s) ! f \<Longrightarrow> f < pool_size s"
    and "\<And>f. f \<le> pool_size s \<Longrightarrow> is_accessible (replacer s) ! f \<Longrightarrow> pin_count (pages s ! f) = 0"
    and "pool_size s < 2 ^ 31"
  using assms unfolding bpm_inv_def by blast+

lemma bpm_invI:
  assumes "length (pages s) = pool_size s"
    and "replacer_size (replacer s) = pool_size s"
    and "replacer_inv (replacer s)"
    and "\<And>f. f \<in> set (free_list s) \<Longrightarrow> f < pool_size s"
    and "\<And>p f. page_table s p = Some f \<Longrightarrow> f < pool_size s"
    and "\<And>f. f \<le> pool_size s \<Longrightarrow> is_accessible (replacer s) ! f \<Longrightarrow>
           f < pool_size s \<and> pin_count (pages s ! f) = 0"
    and "pool_size s < 2 ^ 31"
  shows "bpm_inv s"
  using assms unfolding bpm_inv_def by blast

text \<open>A state that differs from a consistent one outside the fields the invariant reads.\<close>

lemma bpm_inv_cong:
  assumes "bpm_inv s"
    and "pool_size s' = pool_size s" and "length (pages s') = length (pages s)"
    and "\<And>f. pin_count (pages s' ! f) = pin_count (pages s ! f)"
    and "replacer s' = replacer s"
    and "set (free_list s') \<subseteq> set (free_list s)"
    and "\<And>p f. page_table s' p = Some f \<Longrightarrow> f < pool_size s"
  shows "bpm_inv s'"
proof (rule bpm_invI)
  note inv = bpm_invD[OF assms(1)]
  show "length (pages s') = pool_size s'" using inv(1) assms(2,3) by simp
  show "replacer_size (replacer s') = pool_size s'" using inv(2) assms(2,5) by simp
  show "replacer_inv (replacer s')" using inv(3) assms(5) by simp
  show "f < pool_size s'" if "f \<in> set (free_list s')" for f
    using inv(4)[of f] that assms(2,6) by auto
  show "f < pool_size s'" if "page_table s' p = Some f" for p f
    using assms(7)[OF that] assms(2) by simp
  show "f < pool_size s' \<and> pin_count (pages s' ! f) = 0"
    if "f \<le> pool_size s'" "is_accessible (replacer s') ! f" for f
    using inv(6,7)[of f] that assms(2,4,5) by simp
  show "pool_size s' < 2 ^ 31" using inv(8) assms(2) by simp
qed

lemma inv_frame_update:
  assumes "bpm_inv s" and "\<And>x. pin_count (g x) = pin_count x"
  shows "bpm_inv (frame_update f g s)"
  using assms(1)
proof (rule bpm_inv_cong)
  show "pin_count (pages (frame_update f g s) ! i) = pin_count (pages s ! i)" for i
    using nth_update_same_field[of pin_count g, OF assms(2)] by simp
qed (use bpm_invD(5)[OF assms(1)] in simp_all)

lemma inv_disk_write_frame:
  assumes "bpm_inv s"
  shows "bpm_inv (disk_write_frame f s)"
  using assms by (rule bpm_inv_cong) (use bpm_invD(5)[OF assms] in simp_all)

lemma inv_table_erase:
  assumes "bpm_inv s"
  shows "bpm_inv (table_erase p s)"
  using assms by (rule bpm_inv_cong) (use bpm_invD(5)[OF assms] in \<open>auto split: if_splits\<close>)

lemma inv_table_set:
  assumes "bpm_inv s" and "f < pool_size s"
  shows "bpm_inv (table_set p f s)"
  using assms(1) by (rule bpm_inv_cong) (use bpm_invD(5)[OF assms(1)] assms(2) in \<open>auto split: if_splits\<close>)

lemma inv_next_page_id:
  assumes "bpm_inv s"
  shows "bpm_inv (s\<lparr>next_page_id := x\<rparr>)"
  using assms by (rule bpm_inv_cong) (use bpm_invD(5)[OF assms] in simp_all)

lemma inv_trace:
  assumes "bpm_inv s"
  shows "bpm_inv (s\<lparr>trace := x\<rparr>)"
  using assms by (rule bpm_inv_cong) (use bpm_invD(5)[OF assms] in simp_all)

lemma init_bpm_inv:
  assumes "n < 2 ^ 31"
  shows "bpm_inv (BufferPoolManager_init n kk psz d)"
proof (rule bpm_invI)
  show "replacer_inv (replacer (BufferPoolManager_init n kk psz d))"
    by (simp add: BufferPoolManager_init_def init_inv)
  show "f < pool_size (BufferPoolManager_init n kk psz d) \<and>
        pin_count (pages (BufferPoolManager_init n kk psz d) ! f) = 0"
    if "f \<le> pool_size (BufferPoolManager_init n kk psz d)"
      "is_accessible (replacer (BufferPoolManager_init n kk psz d)) ! f" for f
    using that by (simp add: BufferPoolManager_init_def LRUKReplacer_init_def del: replicate_Suc)
qed (use assms in \<open>simp_all add: BufferPoolManager_init_def LRUKReplacer_init_def\<close>)

subsection \<open>What the pool needs of the replacer\<close>

lemma Evict_Some:
  assumes "replacer_inv r" and "Evict r = (Some f, r')"
  shows "is_accessible r ! f" and "f \<le> replacer_size r"
    and "is_accessible r' = (is_accessible r)[f := False]"
    and "replacer_size r' = replacer_size r"
    and "replacer_inv r'"
proof -
  note inv = invD[OF assms(1)]
  from Evict_inv[OF assms(1)] assms(2) show "replacer_inv r'" by simp
  from step_params[of OpEvict r] assms(2) show "replacer_size r' = replacer_size r" by simp
  have "is_accessible r ! f \<and> f \<le> replacer_size r \<and> is_accessible r' = (is_accessible r)[f := False]"
    using assms(1)
  proof (cases rule: Evict_cases)
    case none
    with assms(2) show ?thesis by simp
  next
    case (hist i)
    from hist(1) have "history_list r ! i \<in> set (history_list r)" by simp
    with inv(6)[of "history_list r ! i"] inv(8)[of "history_list r ! i"]
    have "history_list r ! i \<le> replacer_size r" by simp
    with hist assms(2) show ?thesis by auto
  next
    case (cache i)
    from cache(2) have "cache_list r ! i \<in> set (cache_list r)" by simp
    with inv(7)[of "cache_list r ! i"] inv(8)[of "cache_list r ! i"]
    have "cache_list r ! i \<le> replacer_size r" by simp
    with cache assms(2) show ?thesis by auto
  qed
  then show "is_accessible r ! f" and "f \<le> replacer_size r"
    and "is_accessible r' = (is_accessible r)[f := False]"
    by simp_all
qed

lemma Evict_None:
  assumes "Evict r = (None, r')"
  shows "r' = r"
  using assms by (auto simp: Evict_def Let_def split: if_splits option.splits)

lemma RecordAccess_total:
  assumes "frame_accepted f r"
  obtains r' where "RecordAccess f r = Inr r'"
  using assms RecordAccess_isl[of f r] by (cases "RecordAccess f r") auto

lemma SetEvictable_total:
  assumes "frame_accepted f r"
  obtains r' where "SetEvictable f b r = Inr r'"
  using assms SetEvictable_isl[of f b r] by (cases "SetEvictable f b r") auto

lemma Remove_frame_total:
  assumes "frame_accepted f r"
  obtains r' where "Remove_frame f r = Inr r'"
  using assms Remove_frame_isl[of f r] by (cases "Remove_frame f r") auto

text \<open>\<open>RecordAccess\<close> then \<open>SetEvictable(false)\<close>: the order of \<open>NewPage\<close> and of the resident
  path of \<open>FetchPage\<close>.\<close>

lemma record_then_protect:
  assumes "replacer_inv r" and "frame_accepted f r"
  obtains r1 r2 where "RecordAccess f r = Inr r1" and "SetEvictable f False r1 = Inr r2"
    and "replacer_inv r2" and "replacer_size r2 = replacer_size r"
    and "is_accessible r2 = (is_accessible r)[f := False]"
proof -
  obtain r1 where r1: "RecordAccess f r = Inr r1"
    using assms(2) by (rule RecordAccess_total)
  note f1 = RecordAccess_fields[OF r1]
  have i1: "replacer_inv r1" using assms(1) r1 by (rule RecordAccess_inv)
  from assms(2) f1(3) have le1: "frame_accepted f r1" by (simp add: frame_accepted_def)
  obtain r2 where r2: "SetEvictable f False r1 = Inr r2"
    using le1 by (rule SetEvictable_total)
  note f2 = SetEvictable_fields0[OF le1, of False, folded SetEvictable_InrD(2)[OF r2]]
  have i2: "replacer_inv r2" using i1 r2 by (rule SetEvictable_inv)
  have "is_accessible r2 = (is_accessible r)[f := False]"
    by (simp add: f2(8) f1(2,6))
  with r1 r2 i2 f2(1) f1(3) show thesis
    by (intro that[of r1 r2]) simp_all
qed

text \<open>\<open>SetEvictable(false)\<close> then \<open>RecordAccess\<close>: the order of the path of \<open>FetchPage\<close> that
  loads a page.\<close>

lemma protect_then_record:
  assumes "replacer_inv r" and "frame_accepted f r"
  obtains r1 r2 where "SetEvictable f False r = Inr r1" and "RecordAccess f r1 = Inr r2"
    and "replacer_inv r2" and "replacer_size r2 = replacer_size r"
    and "is_accessible r2 = (is_accessible r)[f := False]"
proof -
  note inv = invD[OF assms(1)]
  obtain r1 where r1: "SetEvictable f False r = Inr r1"
    using assms(2) by (rule SetEvictable_total)
  note f1 = SetEvictable_fields0[OF assms(2), of False, folded SetEvictable_InrD(2)[OF r1]]
  have i1: "replacer_inv r1" using assms(1) r1 by (rule SetEvictable_inv)
  from assms(2) f1(1) have le1: "frame_accepted f r1" by (simp add: frame_accepted_def)
  obtain r2 where r2: "RecordAccess f r1 = Inr r2"
    using le1 by (rule RecordAccess_total)
  note f2 = RecordAccess_fields[OF r2]
  have i2: "replacer_inv r2" using i1 r2 by (rule RecordAccess_inv)
  have "is_accessible r1 = (is_accessible r)[f := False]"
  proof (cases "use_count r f = 0")
    case True
    with inv(9)[OF frame_accepted_le[OF assms(2)]] have "is_accessible r ! f = False" by auto
    then have "(is_accessible r)[f := False] = is_accessible r"
      by (metis list_update_id)
    with True show ?thesis by (simp add: f1(8))
  next
    case False
    then show ?thesis by (simp add: f1(8))
  qed
  with r1 r2 i2 f2(2,3) f1(1) show thesis
    by (intro that[of r1 r2]) simp_all
qed

subsection \<open>Finding a frame\<close>

lemma acquire_frame_cases:
  obtains
    (free) "free_list s \<noteq> []"
      and "acquire_frame s = (Some (last (free_list s)), s\<lparr>free_list := butlast (free_list s)\<rparr>)"
  | (none) "free_list s = []" and "fst (Evict (replacer s)) = None"
      and "acquire_frame s = (None, s\<lparr>replacer := snd (Evict (replacer s))\<rparr>)"
  | (clean) f r' where "free_list s = []" and "Evict (replacer s) = (Some f, r')"
      and "\<not> is_dirty (pages s ! f)"
      and "acquire_frame s = (Some f, table_erase (page_id (pages s ! f)) (s\<lparr>replacer := r'\<rparr>))"
  | (dirty) f r' where "free_list s = []" and "Evict (replacer s) = (Some f, r')"
      and "is_dirty (pages s ! f)"
      and "acquire_frame s =
             (Some f, table_erase (page_id (pages s ! f))
                        (frame_update f (\<lambda>p. p\<lparr>is_dirty := False\<rparr>)
                           (disk_write_frame f (s\<lparr>replacer := r'\<rparr>))))"
proof (cases "free_list s = []")
  case False
  then show thesis by (intro free) (simp_all add: acquire_frame_def)
next
  case True
  obtain v r' where e: "Evict (replacer s) = (v, r')" by (cases "Evict (replacer s)")
  show thesis
  proof (cases v)
    case None
    with True e show thesis by (intro none) (simp_all add: acquire_frame_def)
  next
    case (Some f)
    show thesis
    proof (cases "is_dirty (pages s ! f)")
      case False
      with True e Some show thesis
        by (intro clean[of f r']) (simp_all add: acquire_frame_def)
    next
      case d: True
      have "page_id ((pages s)[f := (pages s ! f)\<lparr>is_dirty := False\<rparr>] ! f) = page_id (pages s ! f)"
        using nth_update_same_field[of page_id "\<lambda>p. p\<lparr>is_dirty := False\<rparr>" "pages s" f f] by simp
      with True e Some d show thesis
        by (intro dirty[of f r']) (simp_all add: acquire_frame_def Let_def)
    qed
  qed
qed

lemma acquire_frame_None:
  assumes "acquire_frame s = (None, s1)"
  shows "s1 = s" and "free_list s = []" and "fst (Evict (replacer s)) = None"
proof -
  have "s1 = s \<and> free_list s = [] \<and> fst (Evict (replacer s)) = None"
  proof (cases s rule: acquire_frame_cases)
    case none
    from none(2) have "Evict (replacer s) = (None, snd (Evict (replacer s)))"
      by (simp add: prod_eq_iff)
    then have "snd (Evict (replacer s)) = replacer s" by (rule Evict_None)
    with none assms show ?thesis by simp
  qed (use assms in simp_all)
  then show "s1 = s" and "free_list s = []" and "fst (Evict (replacer s)) = None"
    by simp_all
qed

lemma acquire_frame_Some:
  assumes "bpm_inv s" and "acquire_frame s = (Some f, s1)"
  shows "bpm_inv s1" and "f < pool_size s" and "pool_size s1 = pool_size s"
    and "next_page_id s1 = next_page_id s"
proof -
  note inv = bpm_invD[OF assms(1)]
  have "bpm_inv s1 \<and> f < pool_size s \<and> pool_size s1 = pool_size s \<and> next_page_id s1 = next_page_id s"
  proof (cases s rule: acquire_frame_cases)
    case free
    with assms(2) have f: "f = last (free_list s)" and s1: "s1 = s\<lparr>free_list := butlast (free_list s)\<rparr>"
      by simp_all
    have "bpm_inv s1"
      using assms(1) unfolding s1
      by (rule bpm_inv_cong) (use inv(5) in \<open>auto dest: in_set_butlastD\<close>)
    moreover have "f < pool_size s"
      using inv(4)[of f] free(1) by (simp add: f)
    ultimately show ?thesis by (simp add: s1)
  next
    case none
    with assms(2) show ?thesis by simp
  next
    case (clean g r')
    with assms(2) have f: "g = f" and s1: "s1 = table_erase (page_id (pages s ! f)) (s\<lparr>replacer := r'\<rparr>)"
      by auto
    note ev = Evict_Some[OF inv(3) clean(2)[unfolded f]]
    have lt: "f < pool_size s" using inv(6)[of f] ev(1,2) inv(2) by simp
    have "bpm_inv (s\<lparr>replacer := r'\<rparr>)"
    proof (rule bpm_invI)
      show "i < pool_size (s\<lparr>replacer := r'\<rparr>) \<and> pin_count (pages (s\<lparr>replacer := r'\<rparr>) ! i) = 0"
        if "i \<le> pool_size (s\<lparr>replacer := r'\<rparr>)" "is_accessible (replacer (s\<lparr>replacer := r'\<rparr>)) ! i" for i
        using that inv(6,7)[of i] ev(1) by (cases "i = f") (simp_all add: ev(3) nth_list_update)
    qed (use inv ev in simp_all)
    then have "bpm_inv s1" unfolding s1 by (rule inv_table_erase)
    with lt show ?thesis by (simp add: s1)
  next
    case (dirty g r')
    with assms(2) have f: "g = f"
      and s1: "s1 = table_erase (page_id (pages s ! f))
                        (frame_update f (\<lambda>p. p\<lparr>is_dirty := False\<rparr>)
                           (disk_write_frame f (s\<lparr>replacer := r'\<rparr>)))"
      by auto
    note ev = Evict_Some[OF inv(3) dirty(2)[unfolded f]]
    have lt: "f < pool_size s" using inv(6)[of f] ev(1,2) inv(2) by simp
    have "bpm_inv (s\<lparr>replacer := r'\<rparr>)"
    proof (rule bpm_invI)
      show "i < pool_size (s\<lparr>replacer := r'\<rparr>) \<and> pin_count (pages (s\<lparr>replacer := r'\<rparr>) ! i) = 0"
        if "i \<le> pool_size (s\<lparr>replacer := r'\<rparr>)" "is_accessible (replacer (s\<lparr>replacer := r'\<rparr>)) ! i" for i
        using that inv(6,7)[of i] ev(1) by (cases "i = f") (simp_all add: ev(3) nth_list_update)
    qed (use inv ev in simp_all)
    then have "bpm_inv s1" unfolding s1
      by (intro inv_table_erase inv_frame_update inv_disk_write_frame) simp_all
    with lt show ?thesis by (simp add: s1)
  qed
  then show "bpm_inv s1" and "f < pool_size s" and "pool_size s1 = pool_size s"
    and "next_page_id s1 = next_page_id s"
    by simp_all
qed

text \<open>Pinning frame \<open>f\<close> and clearing its evictable flag keeps the pool consistent.\<close>

lemma inv_pin:
  assumes "bpm_inv s" and "f < pool_size s"
    and "pool_size s' = pool_size s" and "length (pages s') = length (pages s)"
    and "\<And>i. i \<noteq> f \<Longrightarrow> pin_count (pages s' ! i) = pin_count (pages s ! i)"
    and "replacer_inv (replacer s')"
    and "replacer_size (replacer s') = replacer_size (replacer s)"
    and "is_accessible (replacer s') = (is_accessible (replacer s))[f := False]"
    and "set (free_list s') \<subseteq> set (free_list s)"
    and "\<And>p i. page_table s' p = Some i \<Longrightarrow> i < pool_size s"
  shows "bpm_inv s'"
proof (rule bpm_invI)
  note inv = bpm_invD[OF assms(1)]
  note rinv = invD[OF inv(3)]
  show "length (pages s') = pool_size s'" using inv(1) assms(3,4) by simp
  show "replacer_size (replacer s') = pool_size s'" using inv(2) assms(3,7) by simp
  show "replacer_inv (replacer s')" by (rule assms(6))
  show "i < pool_size s'" if "i \<in> set (free_list s')" for i
    using inv(4)[of i] that assms(3,9) by auto
  show "i < pool_size s'" if "page_table s' p = Some i" for p i
    using assms(10)[OF that] assms(3) by simp
  show "i < pool_size s' \<and> pin_count (pages s' ! i) = 0"
    if "i \<le> pool_size s'" "is_accessible (replacer s') ! i" for i
  proof (cases "i = f")
    case True
    from assms(2) rinv(1) inv(2) have "f < length (is_accessible (replacer s))" by simp
    with that(2) True show ?thesis by (simp add: assms(8))
  next
    case False
    with that have "is_accessible (replacer s) ! i" by (simp add: assms(8))
    with inv(6,7)[of i] that(1) assms(3) assms(5)[OF False] show ?thesis by simp
  qed
  show "pool_size s' < 2 ^ 31" using inv(8) assms(3) by simp
qed

subsection \<open>NewPage\<close>

lemma NewPage_cases:
  assumes "bpm_inv s"
  obtains
    (full) "free_list s = []" and "fst (Evict (replacer s)) = None"
      and "NewPage s = Inr (None, s\<lparr>next_page_id := int32 (next_page_id s + 1)\<rparr>)"
  | (ok) f s1 r1 r2 where
      "acquire_frame (s\<lparr>next_page_id := int32 (next_page_id s + 1)\<rparr>) = (Some f, s1)"
      and "bpm_inv s1" and "f < pool_size s1"
      and "RecordAccess f (replacer s1) = Inr r1" and "SetEvictable f False r1 = Inr r2"
      and "replacer_inv r2" and "replacer_size r2 = replacer_size (replacer s1)"
      and "is_accessible r2 = (is_accessible (replacer s1))[f := False]"
      and "NewPage s =
             Inr (Some (next_page_id s, f),
                  (frame_update f
                     (\<lambda>p. p\<lparr>page_id := next_page_id s, is_dirty := False, pin_count := 1,
                             data := ResetMemory (data p)\<rparr>)
                     (table_set (next_page_id s) f s1))\<lparr>replacer := r2\<rparr>)"
proof -
  let ?s0 = "s\<lparr>next_page_id := int32 (next_page_id s + 1)\<rparr>"
  have i0: "bpm_inv ?s0" using assms by (rule inv_next_page_id)
  obtain v s1 where a: "acquire_frame ?s0 = (v, s1)" by (cases "acquire_frame ?s0")
  show thesis
  proof (cases v)
    case None
    from acquire_frame_None[OF a[unfolded None]] a None show thesis
      by (intro full) (simp_all add: NewPage_def Let_def)
  next
    case (Some f)
    note aq = acquire_frame_Some[OF i0 a[unfolded Some]]
    note inv1 = bpm_invD[OF aq(1)]
    from aq(2,3) have lt: "f < pool_size s1" by simp
    with inv1(2) have le: "frame_accepted f (replacer s1)" using inv1(8) by (simp add: frame_accepted_iff)
    obtain r1 r2 where r: "RecordAccess f (replacer s1) = Inr r1" "SetEvictable f False r1 = Inr r2"
      "replacer_inv r2" "replacer_size r2 = replacer_size (replacer s1)"
      "is_accessible r2 = (is_accessible (replacer s1))[f := False]"
      using inv1(3) le by (rule record_then_protect)
    show thesis
      using a Some aq(1) lt r
      by (intro ok[of f s1 r1 r2]) (simp_all add: NewPage_def Let_def)
  qed
qed

lemma NewPage_inv:
  assumes "bpm_inv s"
  obtains v s' where "NewPage s = Inr (v, s')" and "bpm_inv s'"
  using assms
proof (cases rule: NewPage_cases)
  case full
  from full(3) inv_next_page_id[OF assms] show thesis by (rule that)
next
  case (ok f s1 r1 r2)
  note inv1 = bpm_invD[OF ok(2)]
  show thesis
  proof (rule that[OF ok(9)], rule inv_pin[OF ok(2,3)])
  qed (use ok(6,7,8) inv1(5) ok(3) in \<open>auto split: if_splits\<close>)
qed

text \<open>The general step: a frame that is evictable afterwards was evictable before with
  the same pin count, or has pin count 0 now.\<close>

lemma bpm_inv_step:
  assumes "bpm_inv s"
    and "pool_size s' = pool_size s" and "length (pages s') = length (pages s)"
    and "replacer_inv (replacer s')"
    and "replacer_size (replacer s') = replacer_size (replacer s)"
    and "\<And>i. i \<in> set (free_list s') \<Longrightarrow> i < pool_size s"
    and "\<And>p i. page_table s' p = Some i \<Longrightarrow> i < pool_size s"
    and "\<And>i. i \<le> pool_size s \<Longrightarrow> is_accessible (replacer s') ! i \<Longrightarrow>
           (is_accessible (replacer s) ! i \<and> pin_count (pages s' ! i) = pin_count (pages s ! i))
           \<or> (i < pool_size s \<and> pin_count (pages s' ! i) = 0)"
  shows "bpm_inv s'"
proof (rule bpm_invI)
  note inv = bpm_invD[OF assms(1)]
  show "length (pages s') = pool_size s'" using inv(1) assms(2,3) by simp
  show "replacer_size (replacer s') = pool_size s'" using inv(2) assms(2,5) by simp
  show "replacer_inv (replacer s')" by (rule assms(4))
  show "i < pool_size s'" if "i \<in> set (free_list s')" for i
    using assms(6)[OF that] assms(2) by simp
  show "i < pool_size s'" if "page_table s' p = Some i" for p i
    using assms(7)[OF that] assms(2) by simp
  show "i < pool_size s' \<and> pin_count (pages s' ! i) = 0"
    if "i \<le> pool_size s'" "is_accessible (replacer s') ! i" for i
    using assms(8)[of i] that inv(6,7)[of i] assms(2) by auto
  show "pool_size s' < 2 ^ 31" using inv(8) assms(2) by simp
qed

subsection \<open>FetchPage\<close>

lemma FetchPage_cases:
  assumes "bpm_inv s"
  obtains
    (resident) f r1 r2 where "page_table s p = Some f" and "f < pool_size s"
      and "RecordAccess f (replacer s) = Inr r1" and "SetEvictable f False r1 = Inr r2"
      and "replacer_inv r2" and "replacer_size r2 = replacer_size (replacer s)"
      and "is_accessible r2 = (is_accessible (replacer s))[f := False]"
      and "FetchPage p s =
             Inr (Some f, (frame_update f (\<lambda>pg. pg\<lparr>pin_count := int32 (pin_count pg + 1)\<rparr>) s)
                            \<lparr>replacer := r2\<rparr>)"
  | (full) "page_table s p = None" and "free_list s = []"
      and "fst (Evict (replacer s)) = None" and "FetchPage p s = Inr (None, s)"
  | (load) f s1 r1 r2 where "page_table s p = None"
      and "acquire_frame s = (Some f, s1)"
      and "bpm_inv s1" and "f < pool_size s1"
      and "SetEvictable f False (replacer s1) = Inr r1" and "RecordAccess f r1 = Inr r2"
      and "replacer_inv r2" and "replacer_size r2 = replacer_size (replacer s1)"
      and "is_accessible r2 = (is_accessible (replacer s1))[f := False]"
      and "FetchPage p s =
             Inr (Some f,
                  (disk_read_frame p f
                     (frame_update f (\<lambda>pg. pg\<lparr>pin_count := 1, is_dirty := False, page_id := p\<rparr>)
                        (table_set p f s1)))\<lparr>replacer := r2\<rparr>)"
proof (cases "page_table s p")
  case (Some f)
  note inv = bpm_invD[OF assms]
  from inv(5)[OF Some] have lt: "f < pool_size s" .
  with inv(2) have le: "frame_accepted f (replacer s)" using inv(8) by (simp add: frame_accepted_iff)
  obtain r1 r2 where r: "RecordAccess f (replacer s) = Inr r1" "SetEvictable f False r1 = Inr r2"
      "replacer_inv r2" "replacer_size r2 = replacer_size (replacer s)"
      "is_accessible r2 = (is_accessible (replacer s))[f := False]"
    using inv(3) le by (rule record_then_protect)
  show thesis
    using Some lt r by (intro resident[of f r1 r2]) (simp_all add: FetchPage_def Let_def)
next
  case None
  obtain v s1 where a: "acquire_frame s = (v, s1)" by (cases "acquire_frame s")
  show thesis
  proof (cases v)
    case N: None
    from acquire_frame_None[OF a[unfolded N]] a N None show thesis
      by (intro full) (simp_all add: FetchPage_def)
  next
    case (Some f)
    note aq = acquire_frame_Some[OF assms a[unfolded Some]]
    note inv1 = bpm_invD[OF aq(1)]
    from aq(2,3) have lt: "f < pool_size s1" by simp
    with inv1(2) have le: "frame_accepted f (replacer s1)" using inv1(8) by (simp add: frame_accepted_iff)
    obtain r1 r2 where r: "SetEvictable f False (replacer s1) = Inr r1" "RecordAccess f r1 = Inr r2"
      "replacer_inv r2" "replacer_size r2 = replacer_size (replacer s1)"
      "is_accessible r2 = (is_accessible (replacer s1))[f := False]"
      using inv1(3) le by (rule protect_then_record)
    show thesis
      using None a Some aq(1) lt r
      by (intro load[of f s1 r1 r2]) (simp_all add: FetchPage_def Let_def)
  qed
qed

lemma FetchPage_inv:
  assumes "bpm_inv s"
  obtains v s' where "FetchPage p s = Inr (v, s')" and "bpm_inv s'"
  using assms
proof (cases rule: FetchPage_cases[where p = p])
  case (resident f r1 r2)
  note inv = bpm_invD[OF assms]
  show thesis
  proof (rule that[OF resident(8)], rule inv_pin[OF assms resident(2)])
  qed (use resident(5,6,7) inv(5) in \<open>auto split: if_splits\<close>)
next
  case full
  from full(4) assms show thesis by (rule that)
next
  case (load f s1 r1 r2)
  note inv1 = bpm_invD[OF load(3)]
  show thesis
  proof (rule that[OF load(10)], rule inv_pin[OF load(3,4)])
  qed (use load(7,8,9) inv1(5) load(4) in \<open>auto split: if_splits\<close>)
qed

subsection \<open>UnpinPage\<close>

lemma UnpinPage_cases:
  assumes "bpm_inv s"
  obtains
    (refused) "UnpinPage p dirty s = Inr (False, s)"
  | (negative) f where "page_table s p = Some f" and "pin_count (pages s ! f) < 0"
      and "UnpinPage p dirty s =
             Inr (False, frame_update f (\<lambda>pg. pg\<lparr>is_dirty := is_dirty pg \<or> dirty\<rparr>) s)"
  | (held) f where "page_table s p = Some f" and "f < pool_size s"
      and "pin_count (pages s ! f) > 1"
      and "UnpinPage p dirty s =
             Inr (True, frame_update f (\<lambda>pg. pg\<lparr>pin_count := pin_count pg - 1\<rparr>)
                          (frame_update f (\<lambda>pg. pg\<lparr>is_dirty := is_dirty pg \<or> dirty\<rparr>) s))"
  | (released) f r1 where "page_table s p = Some f" and "f < pool_size s"
      and "pin_count (pages s ! f) = 1"
      and "SetEvictable f True (replacer s) = Inr r1"
      and "UnpinPage p dirty s =
             Inr (True, (frame_update f (\<lambda>pg. pg\<lparr>pin_count := pin_count pg - 1\<rparr>)
                          (frame_update f (\<lambda>pg. pg\<lparr>is_dirty := is_dirty pg \<or> dirty\<rparr>) s))
                        \<lparr>replacer := r1\<rparr>)"
proof (cases "page_table s p")
  case None
  then show thesis by (intro refused) (simp add: UnpinPage_def)
next
  case (Some f)
  note inv = bpm_invD[OF assms]
  from inv(5)[OF Some] have lt: "f < pool_size s" .
  with inv(1) have len: "f < length (pages s)" by simp
  consider "pin_count (pages s ! f) = 0" | "pin_count (pages s ! f) < 0"
    | "pin_count (pages s ! f) > 1" | "pin_count (pages s ! f) = 1"
    by linarith
  then show thesis
  proof cases
    case 1
    with Some show thesis by (intro refused) (simp add: UnpinPage_def)
  next
    case 2
    with Some len show thesis by (intro negative[of f]) (simp_all add: UnpinPage_def Let_def)
  next
    case 3
    with Some len lt show thesis by (intro held[of f]) (simp_all add: UnpinPage_def Let_def)
  next
    case 4
    from lt inv(2) have "frame_accepted f (replacer s)" using inv(8) by (simp add: frame_accepted_iff)
    then obtain r1 where "SetEvictable f True (replacer s) = Inr r1"
      by (rule SetEvictable_total)
    with 4 Some len lt show thesis
      by (intro released[of f r1]) (simp_all add: UnpinPage_def Let_def)
  qed
qed

lemma UnpinPage_inv:
  assumes "bpm_inv s"
  obtains v s' where "UnpinPage p dirty s = Inr (v, s')" and "bpm_inv s'"
  using assms
proof (cases rule: UnpinPage_cases[where p = p and dirty = dirty])
  case refused
  from refused assms show thesis by (rule that)
next
  case (negative f)
  show thesis
    by (rule that[OF negative(3)], rule inv_frame_update[OF assms]) simp
next
  case (held f)
  note inv = bpm_invD[OF assms]
  show thesis
  proof (rule that[OF held(4)], rule bpm_inv_step[OF assms])
    show "(is_accessible (replacer s) ! i \<and>
            pin_count (pages (frame_update f (\<lambda>pg. pg\<lparr>pin_count := pin_count pg - 1\<rparr>)
              (frame_update f (\<lambda>pg. pg\<lparr>is_dirty := is_dirty pg \<or> dirty\<rparr>) s)) ! i)
            = pin_count (pages s ! i))
          \<or> (i < pool_size s \<and>
              pin_count (pages (frame_update f (\<lambda>pg. pg\<lparr>pin_count := pin_count pg - 1\<rparr>)
                (frame_update f (\<lambda>pg. pg\<lparr>is_dirty := is_dirty pg \<or> dirty\<rparr>) s)) ! i) = 0)"
      if "i \<le> pool_size s"
        and "is_accessible (replacer (frame_update f (\<lambda>pg. pg\<lparr>pin_count := pin_count pg - 1\<rparr>)
              (frame_update f (\<lambda>pg. pg\<lparr>is_dirty := is_dirty pg \<or> dirty\<rparr>) s))) ! i" for i
      using that inv(7)[of i] held(3) by (cases "i = f") simp_all
  qed (use inv in simp_all)
next
  case (released f r1)
  note inv = bpm_invD[OF assms]
  from released(2) inv(2) have le: "frame_accepted f (replacer s)" using inv(8) by (simp add: frame_accepted_iff)
  note fl = SetEvictable_fields0[OF le, of True, folded SetEvictable_InrD(2)[OF released(4)]]
  from released(2) inv(1) have len: "f < length (pages s)" by simp
  show thesis
  proof (rule that[OF released(5)], rule bpm_inv_step[OF assms])
    show "replacer_inv (replacer ((frame_update f (\<lambda>pg. pg\<lparr>pin_count := pin_count pg - 1\<rparr>)
              (frame_update f (\<lambda>pg. pg\<lparr>is_dirty := is_dirty pg \<or> dirty\<rparr>) s))\<lparr>replacer := r1\<rparr>))"
      using SetEvictable_inv[OF inv(3) released(4)] by simp
    show "(is_accessible (replacer s) ! i \<and>
            pin_count (pages ((frame_update f (\<lambda>pg. pg\<lparr>pin_count := pin_count pg - 1\<rparr>)
              (frame_update f (\<lambda>pg. pg\<lparr>is_dirty := is_dirty pg \<or> dirty\<rparr>) s))\<lparr>replacer := r1\<rparr>) ! i)
            = pin_count (pages s ! i))
          \<or> (i < pool_size s \<and>
              pin_count (pages ((frame_update f (\<lambda>pg. pg\<lparr>pin_count := pin_count pg - 1\<rparr>)
                (frame_update f (\<lambda>pg. pg\<lparr>is_dirty := is_dirty pg \<or> dirty\<rparr>) s))\<lparr>replacer := r1\<rparr>) ! i) = 0)"
      if "i \<le> pool_size s"
        and "is_accessible (replacer ((frame_update f (\<lambda>pg. pg\<lparr>pin_count := pin_count pg - 1\<rparr>)
              (frame_update f (\<lambda>pg. pg\<lparr>is_dirty := is_dirty pg \<or> dirty\<rparr>) s))\<lparr>replacer := r1\<rparr>)) ! i" for i
    proof (cases "i = f")
      case True
      with released(2,3) len show ?thesis by simp
    next
      case False
      with that(2) have "is_accessible (replacer s) ! i"
        by (simp add: fl(8) split: if_splits)
      with False show ?thesis by simp
    qed
  qed (use inv fl(1) in simp_all)
qed

subsection \<open>FlushPage and FlushAllPages\<close>

lemma FlushPage_inv: "bpm_inv s \<Longrightarrow> bpm_inv (snd (FlushPage p s))"
  by (auto simp: FlushPage_def split: option.splits
      intro!: inv_frame_update inv_disk_write_frame)

lemma flush_frame_inv: "bpm_inv s \<Longrightarrow> bpm_inv (flush_frame i s)"
  by (auto simp: flush_frame_def intro!: inv_frame_update inv_disk_write_frame)

lemma fold_flush_frame_inv: "bpm_inv s \<Longrightarrow> bpm_inv (fold flush_frame xs s)"
  by (induction xs arbitrary: s) (simp_all add: flush_frame_inv)

lemma FlushAllPages_inv: "bpm_inv s \<Longrightarrow> bpm_inv (FlushAllPages s)"
  by (simp add: FlushAllPages_def fold_flush_frame_inv)

subsection \<open>DeletePage\<close>

lemma DeletePage_inv:
  assumes "bpm_inv s"
  obtains v s' where "DeletePage p s = Inr (v, s')" and "bpm_inv s'"
proof (cases "page_table s p")
  case None
  then have "DeletePage p s = Inr (True, s)" by (simp add: DeletePage_def)
  from this assms show thesis by (rule that)
next
  case (Some f)
  note inv = bpm_invD[OF assms]
  from inv(5)[OF Some] have lt: "f < pool_size s" .
  show thesis
  proof (cases "pin_count (pages s ! f) = 0")
    case False
    with Some have "DeletePage p s = Inr (False, s)" by (simp add: DeletePage_def)
    from this assms show thesis by (rule that)
  next
    case True
    let ?s1 = "if is_dirty (pages s ! f)
               then frame_update f (\<lambda>pg. pg\<lparr>is_dirty := False\<rparr>) (disk_write_frame f s) else s"
    let ?s3 = "frame_update f
                 (\<lambda>pg. pg\<lparr>is_dirty := False, data := ResetMemory (data pg),
                           page_id := INVALID_PAGE_ID\<rparr>) (table_erase p ?s1)"
    have i1: "bpm_inv ?s1"
      using assms by (auto intro!: inv_frame_update inv_disk_write_frame)
    then have i3: "bpm_inv ?s3"
      by (intro inv_frame_update inv_table_erase) simp_all
    have r3: "replacer ?s3 = replacer s" and p3: "pool_size ?s3 = pool_size s"
      and f3: "free_list ?s3 = free_list s"
      by simp_all
    from lt inv(2) have le: "frame_accepted f (replacer s)" using inv(8) by (simp add: frame_accepted_iff)
    then obtain r1 where r1: "Remove_frame f (replacer s) = Inr r1"
      by (rule Remove_frame_total)
    have ri: "replacer_inv r1" using inv(3) r1 by (rule Remove_frame_inv)
    have rs: "replacer_size r1 = replacer_size (replacer s)"
      using step_params[of "OpRemove f" "replacer s"] r1 by simp
    have acc: "is_accessible (replacer s) ! i" if "is_accessible r1 ! i" for i
    proof (cases "is_accessible (replacer s) ! f")
      case False
      with Remove_frame_noop[OF le] r1 that show ?thesis by simp
    next
      case T: True
      note fl = Remove_frame_fields0[OF le T, folded Remove_frame_InrD(2)[OF r1]]
      from that show ?thesis
        by (cases "i = f") (simp_all add: fl(4) T)
    qed
    let ?s' = "?s3\<lparr>replacer := r1, free_list := free_list ?s3 @ [f],
                    trace := trace ?s3 @ [DeallocatePage p]\<rparr>"
    have d: "DeletePage p s = Inr (True, ?s')"
      using Some True r1 unfolding DeletePage_def Let_def by (simp add: r3)
    have "bpm_inv ?s'"
    proof (rule bpm_inv_step[OF i3])
      show "i < pool_size ?s3" if "i \<in> set (free_list ?s')" for i
        using that inv(4)[of i] lt by (auto split: if_splits)
      show "i < pool_size ?s3" if "page_table ?s' q = Some i" for q i
        using that bpm_invD(5)[OF i3, of q i] by simp
      show "(is_accessible (replacer ?s3) ! i \<and> pin_count (pages ?s' ! i) = pin_count (pages ?s3 ! i))
            \<or> (i < pool_size ?s3 \<and> pin_count (pages ?s' ! i) = 0)"
        if "i \<le> pool_size ?s3" "is_accessible (replacer ?s') ! i" for i
        using that(2) acc[of i] by (simp add: r3)
    qed (use ri rs in \<open>simp_all add: r3\<close>)
    with d show thesis by (rule that)
  qed
qed

subsection \<open>Every run of the pool succeeds and ends in a consistent state\<close>

lemma bpm_step_inv:
  assumes "bpm_inv s"
  obtains s' where "bpm_step x s = Inr s'" and "bpm_inv s'"
proof (cases x)
  case OpNewPage
  from NewPage_inv[OF assms] obtain v s' where "NewPage s = Inr (v, s')" "bpm_inv s'" .
  with OpNewPage show thesis by (intro that[of s']) simp_all
next
  case (OpFetchPage p)
  from FetchPage_inv[OF assms] obtain v s' where "FetchPage p s = Inr (v, s')" "bpm_inv s'" .
  with OpFetchPage show thesis by (intro that[of s']) simp_all
next
  case (OpUnpinPage p d)
  from UnpinPage_inv[OF assms] obtain v s' where "UnpinPage p d s = Inr (v, s')" "bpm_inv s'" .
  with OpUnpinPage show thesis by (intro that[of s']) simp_all
next
  case (OpFlushPage p)
  with FlushPage_inv[OF assms] show thesis by (intro that[of "snd (FlushPage p s)"]) simp_all
next
  case OpFlushAllPages
  with FlushAllPages_inv[OF assms] show thesis by (intro that[of "FlushAllPages s"]) simp_all
next
  case (OpDeletePage p)
  from DeletePage_inv[OF assms] obtain v s' where "DeletePage p s = Inr (v, s')" "bpm_inv s'" .
  with OpDeletePage show thesis by (intro that[of s']) simp_all
next
  case (OpWriteData f bytes)
  with inv_frame_update[OF assms, of "\<lambda>pg. pg\<lparr>data := bytes\<rparr>" f] show thesis
    by (intro that[of "frame_update f (\<lambda>pg. pg\<lparr>data := bytes\<rparr>) s"]) simp_all
qed

lemma bpm_run_inv:
  "bpm_inv s \<Longrightarrow> \<exists>s'. bpm_run xs s = Inr s' \<and> bpm_inv s'"
proof (induction xs arbitrary: s)
  case Nil
  then show ?case by simp
next
  case (Cons x xs)
  from bpm_step_inv[OF Cons.prems] obtain s1 where s1: "bpm_step x s = Inr s1" "bpm_inv s1" .
  from Cons.IH[OF s1(2)] s1(1) show ?case by simp
qed

lemma bpm_reachable:
  assumes "n < 2 ^ 31"
  obtains s where "bpm_run xs (BufferPoolManager_init n kk psz d) = Inr s" and "bpm_inv s"
  using bpm_run_inv[OF init_bpm_inv[OF assms]] by blast

subsection \<open>Bounds of the pin counts\<close>
















text \<open>
  At the largest 32-bit value the increment wraps around: a page with \<open>2 ^ 31 - 1\<close> pins
  has a negative pin count after the next \<open>FetchPage\<close>.
\<close>

lemma FetchPage_wraps:
  assumes "bpm_inv s" and "page_table s p = Some f" and "pin_count (pages s ! f) = 2 ^ 31 - 1"
  shows "\<exists>s'. FetchPage p s = Inr (Some f, s') \<and> pin_count (pages s' ! f) = - (2 ^ 31)"
  using assms(1)
proof (cases rule: FetchPage_cases[where p = p])
  case (resident g r1 r2)
  with assms(2) have g: "g = f" by simp
  from resident(2) bpm_invD(1)[OF assms(1)] have len: "g < length (pages s)" by simp
  show ?thesis
    unfolding resident(8) using g len assms(3) by (simp add: int32_def)
next
  case full
  with assms(2) show ?thesis by simp
next
  case (load g s1 r1 r2)
  with assms(2) show ?thesis by simp
qed





subsection \<open>The page table and the frames agree\<close>

lemma table_invD:
  assumes "table_inv s"
  shows "distinct (free_list s)"
    and "\<And>p f. page_table s p = Some f \<Longrightarrow> page_id (pages s ! f) = p"
    and "\<And>p f. page_table s p = Some f \<Longrightarrow> f \<notin> set (free_list s)"
  using assms unfolding table_inv_def by blast+

lemma table_invI:
  assumes "distinct (free_list s)"
    and "\<And>p f. page_table s p = Some f \<Longrightarrow> page_id (pages s ! f) = p"
    and "\<And>p f. page_table s p = Some f \<Longrightarrow> f \<notin> set (free_list s)"
  shows "table_inv s"
  using assms unfolding table_inv_def by blast

lemma table_inv_keep:
  assumes "table_inv s" and "page_table s' = page_table s" and "free_list s' = free_list s"
    and "\<And>i. page_id (pages s' ! i) = page_id (pages s ! i)"
  shows "table_inv s'"
  using table_invD[OF assms(1)] assms(2,3,4) by (intro table_invI) simp_all

lemma table_inv_frame_update:
  assumes "table_inv s" and "\<And>x. page_id (g x) = page_id x"
  shows "table_inv (frame_update f g s)"
  using assms(1)
proof (rule table_inv_keep)
  show "page_id (pages (frame_update f g s) ! i) = page_id (pages s ! i)" for i
    using nth_update_same_field[of page_id g, OF assms(2)] by simp
qed simp_all

lemma table_inv_disk_write_frame: "table_inv s \<Longrightarrow> table_inv (disk_write_frame f s)"
  by (erule table_inv_keep) simp_all

lemma last_notin_butlast:
  assumes "distinct xs" and "xs \<noteq> []"
  shows "last xs \<notin> set (butlast xs)"
proof -
  from assms have "distinct (butlast xs @ [last xs])" by simp
  then show ?thesis by simp
qed

text \<open>The frame that \<open>acquire_frame\<close> returns is detached: no page id is mapped to it and it
  is not in the free list.\<close>

lemma acquire_frame_table:
  assumes "table_inv s" and "acquire_frame s = (Some f, s1)"
  shows "table_inv s1" and "f \<notin> set (free_list s1)" and "\<And>q. page_table s1 q \<noteq> Some f"
proof -
  note t = table_invD[OF assms(1)]
  have "table_inv s1 \<and> f \<notin> set (free_list s1) \<and> (\<forall>q. page_table s1 q \<noteq> Some f)"
  proof (cases s rule: acquire_frame_cases)
    case free
    with assms(2) have f: "f = last (free_list s)" and s1: "s1 = s\<lparr>free_list := butlast (free_list s)\<rparr>"
      by simp_all
    have "table_inv s1"
      unfolding s1 using t by (intro table_invI) (auto dest: in_set_butlastD simp: distinct_butlast)
    moreover have "f \<notin> set (free_list s1)"
      using last_notin_butlast[OF t(1) free(1)] by (simp add: s1 f)
    moreover have "page_table s1 q \<noteq> Some f" for q
      using t(3)[of q f] free(1) by (auto simp: s1 f)
    ultimately show ?thesis by blast
  next
    case none
    with assms(2) show ?thesis by simp
  next
    case (clean g r')
    with assms(2) have f: "g = f" and s1: "s1 = table_erase (page_id (pages s ! f)) (s\<lparr>replacer := r'\<rparr>)"
      by auto
    have "table_inv s1"
      unfolding s1 using t by (intro table_invI) (auto split: if_splits)
    moreover have "f \<notin> set (free_list s1)" using clean(1) by (simp add: s1)
    moreover have "page_table s1 q \<noteq> Some f" for q
      using t(2)[of q f] by (auto simp: s1)
    ultimately show ?thesis by blast
  next
    case (dirty g r')
    with assms(2) have f: "g = f"
      and s1: "s1 = table_erase (page_id (pages s ! f))
                        (frame_update f (\<lambda>p. p\<lparr>is_dirty := False\<rparr>)
                           (disk_write_frame f (s\<lparr>replacer := r'\<rparr>)))"
      by auto
    have "table_inv (s\<lparr>replacer := r'\<rparr>)"
      using assms(1) by (rule table_inv_keep) simp_all
    then have "table_inv (frame_update f (\<lambda>p. p\<lparr>is_dirty := False\<rparr>)
                           (disk_write_frame f (s\<lparr>replacer := r'\<rparr>)))"
      by (intro table_inv_frame_update table_inv_disk_write_frame) simp_all
    then have "table_inv s1"
      unfolding s1 by (intro table_invI) (auto dest: table_invD split: if_splits)
    moreover have "f \<notin> set (free_list s1)" using dirty(1) by (simp add: s1)
    moreover have "page_table s1 q \<noteq> Some f" for q
      using t(2)[of q f] by (auto simp: s1)
    ultimately show ?thesis by blast
  qed
  then show "table_inv s1" and "f \<notin> set (free_list s1)" and "\<And>q. page_table s1 q \<noteq> Some f"
    by blast+
qed

lemma acquire_frame_table_None:
  assumes "table_inv s" and "acquire_frame s = (None, s1)"
  shows "table_inv s1"
  using acquire_frame_None(1)[OF assms(2)] assms(1) by simp

text \<open>Mapping a page id to a detached frame that takes this page id.\<close>

lemma table_inv_install:
  assumes "table_inv s1" and "f \<notin> set (free_list s1)" and "\<And>q. page_table s1 q \<noteq> Some f"
    and "page_table s' = (page_table s1)(p \<mapsto> f)" and "free_list s' = free_list s1"
    and "page_id (pages s' ! f) = p"
    and "\<And>i. i \<noteq> f \<Longrightarrow> page_id (pages s' ! i) = page_id (pages s1 ! i)"
  shows "table_inv s'"
proof (rule table_invI)
  note t = table_invD[OF assms(1)]
  show "distinct (free_list s')" using t(1) assms(5) by simp
  show "page_id (pages s' ! g) = q" if "page_table s' q = Some g" for q g
  proof (cases "q = p")
    case True
    with that assms(4,6) show ?thesis by simp
  next
    case False
    with that assms(4) have m: "page_table s1 q = Some g" by simp
    with assms(3)[of q] have "g \<noteq> f" by auto
    with t(2)[OF m] assms(7) show ?thesis by simp
  qed
  show "g \<notin> set (free_list s')" if "page_table s' q = Some g" for q g
    using that t(3)[of q g] assms(2,4,5) by (auto split: if_splits)
qed

lemma NewPage_table:
  assumes "bpm_inv s" and "table_inv s" and "NewPage s = Inr (v, s')"
  shows "table_inv s'"
  using assms(1)
proof (cases rule: NewPage_cases)
  case full
  have "table_inv (s\<lparr>next_page_id := int32 (next_page_id s + 1)\<rparr>)"
    using assms(2) by (rule table_inv_keep) simp_all
  with full(3) assms(3) show ?thesis by simp
next
  case (ok f s1 r1 r2)
  have "table_inv (s\<lparr>next_page_id := int32 (next_page_id s + 1)\<rparr>)"
    using assms(2) by (rule table_inv_keep) simp_all
  note a = acquire_frame_table[OF this ok(1)]
  from ok(3) bpm_invD(1)[OF ok(2)] have len: "f < length (pages s1)" by simp
  have "table_inv ((frame_update f
                     (\<lambda>p. p\<lparr>page_id := next_page_id s, is_dirty := False, pin_count := 1,
                             data := ResetMemory (data p)\<rparr>)
                     (table_set (next_page_id s) f s1))\<lparr>replacer := r2\<rparr>)"
    by (rule table_inv_install[OF a, of _ "next_page_id s"]) (use len in simp_all)
  with ok(9) assms(3) show ?thesis by simp
qed

lemma FetchPage_table:
  assumes "bpm_inv s" and "table_inv s" and "FetchPage p s = Inr (v, s')"
  shows "table_inv s'"
  using assms(1)
proof (cases rule: FetchPage_cases[where p = p])
  case (resident f r1 r2)
  have "table_inv (frame_update f (\<lambda>pg. pg\<lparr>pin_count := int32 (pin_count pg + 1)\<rparr>) s)"
    using assms(2) by (rule table_inv_frame_update) simp
  then have "table_inv ((frame_update f (\<lambda>pg. pg\<lparr>pin_count := int32 (pin_count pg + 1)\<rparr>) s)
                            \<lparr>replacer := r2\<rparr>)"
    by (rule table_inv_keep) simp_all
  with resident(8) assms(3) show ?thesis by simp
next
  case full
  with assms show ?thesis by simp
next
  case (load f s1 r1 r2)
  note a = acquire_frame_table[OF assms(2) load(2)]
  from load(4) bpm_invD(1)[OF load(3)] have len: "f < length (pages s1)" by simp
  have "table_inv ((disk_read_frame p f
                     (frame_update f (\<lambda>pg. pg\<lparr>pin_count := 1, is_dirty := False, page_id := p\<rparr>)
                        (table_set p f s1)))\<lparr>replacer := r2\<rparr>)"
    by (rule table_inv_install[OF a, of _ p]) (use len in simp_all)
  with load(10) assms(3) show ?thesis by simp
qed

lemma UnpinPage_table:
  assumes "bpm_inv s" and "table_inv s" and "UnpinPage p dirty s = Inr (v, s')"
  shows "table_inv s'"
  using assms(1)
proof (cases rule: UnpinPage_cases[where p = p and dirty = dirty])
  case refused
  with assms show ?thesis by simp
next
  case (negative f)
  have "table_inv (frame_update f (\<lambda>pg. pg\<lparr>is_dirty := is_dirty pg \<or> dirty\<rparr>) s)"
    using assms(2) by (rule table_inv_frame_update) simp
  with negative(3) assms(3) show ?thesis by simp
next
  case (held f)
  have "table_inv (frame_update f (\<lambda>pg. pg\<lparr>pin_count := pin_count pg - 1\<rparr>)
                          (frame_update f (\<lambda>pg. pg\<lparr>is_dirty := is_dirty pg \<or> dirty\<rparr>) s))"
    using assms(2) by (intro table_inv_frame_update) simp_all
  with held(4) assms(3) show ?thesis by simp
next
  case (released f r1)
  have "table_inv (frame_update f (\<lambda>pg. pg\<lparr>pin_count := pin_count pg - 1\<rparr>)
                          (frame_update f (\<lambda>pg. pg\<lparr>is_dirty := is_dirty pg \<or> dirty\<rparr>) s))"
    using assms(2) by (intro table_inv_frame_update) simp_all
  then have "table_inv ((frame_update f (\<lambda>pg. pg\<lparr>pin_count := pin_count pg - 1\<rparr>)
                          (frame_update f (\<lambda>pg. pg\<lparr>is_dirty := is_dirty pg \<or> dirty\<rparr>) s))
                        \<lparr>replacer := r1\<rparr>)"
    by (rule table_inv_keep) simp_all
  with released(5) assms(3) show ?thesis by simp
qed

lemma FlushPage_table: "table_inv s \<Longrightarrow> table_inv (snd (FlushPage p s))"
  by (auto simp: FlushPage_def split: option.splits
      intro!: table_inv_frame_update table_inv_disk_write_frame)

lemma flush_frame_table: "table_inv s \<Longrightarrow> table_inv (flush_frame i s)"
  by (auto simp: flush_frame_def intro!: table_inv_frame_update table_inv_disk_write_frame)

lemma fold_flush_frame_table: "table_inv s \<Longrightarrow> table_inv (fold flush_frame xs s)"
  by (induction xs arbitrary: s) (simp_all add: flush_frame_table)

lemma DeletePage_table:
  assumes "bpm_inv s" and "table_inv s" and "DeletePage p s = Inr (v, s')"
  shows "table_inv s'"
proof (cases "page_table s p")
  case None
  with assms show ?thesis by (simp add: DeletePage_def)
next
  case (Some f)
  note inv = bpm_invD[OF assms(1)]
  note t = table_invD[OF assms(2)]
  show ?thesis
  proof (cases "pin_count (pages s ! f) = 0")
    case False
    with Some assms show ?thesis by (simp add: DeletePage_def)
  next
    case True
    let ?s1 = "if is_dirty (pages s ! f)
               then frame_update f (\<lambda>pg. pg\<lparr>is_dirty := False\<rparr>) (disk_write_frame f s) else s"
    let ?s3 = "frame_update f
                 (\<lambda>pg. pg\<lparr>is_dirty := False, data := ResetMemory (data pg),
                           page_id := INVALID_PAGE_ID\<rparr>) (table_erase p ?s1)"
    have t1: "table_inv ?s1"
      using assms(2) by (auto intro!: table_inv_frame_update table_inv_disk_write_frame)
    have pt1: "page_table ?s1 = page_table s" and fl1: "free_list ?s1 = free_list s" by simp_all
    from inv(5)[OF Some] inv(2) have "frame_accepted f (replacer s)" using inv(8) by (simp add: frame_accepted_iff)
    then obtain r1 where r1: "Remove_frame f (replacer s) = Inr r1"
      by (rule Remove_frame_total)
    have r3: "replacer ?s3 = replacer s" by simp
    let ?s' = "?s3\<lparr>replacer := r1, free_list := free_list ?s3 @ [f],
                    trace := trace ?s3 @ [DeallocatePage p]\<rparr>"
    have d: "DeletePage p s = Inr (True, ?s')"
      using Some True r1 unfolding DeletePage_def Let_def by (simp add: r3)
    have other: "g \<noteq> f" if "q \<noteq> p" "page_table s q = Some g" for q g
      using t(2)[OF that(2)] t(2)[OF Some] that(1) by auto
    have "table_inv ?s'"
    proof (rule table_invI)
      show "distinct (free_list ?s')"
        using t(1) t(3)[OF Some] by (simp add: fl1)
      show "page_id (pages ?s' ! g) = q" if "page_table ?s' q = Some g" for q g
      proof -
        from that have qp: "q \<noteq> p" and m: "page_table s q = Some g"
          by (auto simp: pt1 split: if_splits)
        from other[OF qp m] have "pages ?s' ! g = pages ?s1 ! g" by simp
        with table_invD(2)[OF t1, of q g] m show ?thesis by (simp add: pt1)
      qed
      show "g \<notin> set (free_list ?s')" if "page_table ?s' q = Some g" for q g
      proof -
        from that have qp: "q \<noteq> p" and m: "page_table s q = Some g"
          by (auto simp: pt1 split: if_splits)
        from other[OF qp m] t(3)[OF m] show ?thesis by (simp add: fl1)
      qed
    qed
    with d assms(3) show ?thesis by simp
  qed
qed

lemma bpm_step_table:
  assumes "bpm_inv s" and "table_inv s" and "bpm_step x s = Inr s'"
  shows "table_inv s'"
proof (cases x)
  case OpNewPage
  with assms(3) obtain v where "NewPage s = Inr (v, s')"
    by (cases "NewPage s") auto
  with assms(1,2) show ?thesis by (rule NewPage_table)
next
  case (OpFetchPage p)
  with assms(3) obtain v where "FetchPage p s = Inr (v, s')"
    by (cases "FetchPage p s") auto
  with assms(1,2) show ?thesis by (rule FetchPage_table)
next
  case (OpUnpinPage p d)
  with assms(3) obtain v where "UnpinPage p d s = Inr (v, s')"
    by (cases "UnpinPage p d s") auto
  with assms(1,2) show ?thesis by (rule UnpinPage_table)
next
  case (OpFlushPage p)
  with assms(2,3) FlushPage_table[of s p] show ?thesis by auto
next
  case OpFlushAllPages
  with assms(2,3) fold_flush_frame_table[of s] show ?thesis
    by (auto simp: FlushAllPages_def)
next
  case (OpDeletePage p)
  with assms(3) obtain v where "DeletePage p s = Inr (v, s')"
    by (cases "DeletePage p s") auto
  with assms(1,2) show ?thesis by (rule DeletePage_table)
next
  case (OpWriteData f bytes)
  have "table_inv (frame_update f (\<lambda>pg. pg\<lparr>data := bytes\<rparr>) s)"
    using assms(2) by (rule table_inv_frame_update) simp
  with OpWriteData assms(3) show ?thesis by auto
qed

lemma init_table: "table_inv (BufferPoolManager_init n kk psz d)"
  by (simp add: table_inv_def BufferPoolManager_init_def)

lemma bpm_run_all:
  "bpm_inv s \<Longrightarrow> table_inv s \<Longrightarrow>
   \<exists>s'. bpm_run xs s = Inr s' \<and> bpm_inv s' \<and> table_inv s'"
proof (induction xs arbitrary: s)
  case Nil
  then show ?case by simp
next
  case (Cons x xs)
  from bpm_step_inv[OF Cons.prems(1)] obtain s1 where s1: "bpm_step x s = Inr s1" "bpm_inv s1" .
  from Cons.prems(1,2) s1(1) have t: "table_inv s1" by (rule bpm_step_table)
  from Cons.IH[OF s1(2) t] s1(1) show ?case by simp
qed

lemma bpm_reachable_all:
  assumes "n < 2 ^ 31"
  obtains s where "bpm_run xs (BufferPoolManager_init n kk psz d) = Inr s"
    and "bpm_inv s" and "table_inv s"
  using bpm_run_all[OF init_bpm_inv[OF assms] init_table] by blast

subsection \<open>Repurposing a victim\<close>

lemma acquire_frame_evict:
  assumes "free_list s = []" and "Evict (replacer s) = (Some f, r')"
  obtains s1 where "acquire_frame s = (Some f, s1)"
    and "trace s1 = trace s
           @ (if is_dirty (pages s ! f)
              then [WritePage (page_id (pages s ! f)) (data (pages s ! f))] else [])
           @ [TableErase (page_id (pages s ! f))]"
proof (cases s rule: acquire_frame_cases)
  case free
  with assms(1) show thesis by simp
next
  case none
  with assms(2) show thesis by simp
next
  case (clean g r'')
  with assms(2) have "g = f" by simp
  with clean show thesis by (intro that[of "table_erase (page_id (pages s ! f)) (s\<lparr>replacer := r''\<rparr>)"]) simp_all
next
  case (dirty g r'')
  with assms(2) have "g = f" by simp
  with dirty show thesis
    by (intro that[of "table_erase (page_id (pages s ! f))
                        (frame_update f (\<lambda>p. p\<lparr>is_dirty := False\<rparr>)
                           (disk_write_frame f (s\<lparr>replacer := r''\<rparr>)))"]) simp_all
qed

lemma NewPage_evict:
  assumes I: "bpm_inv s" and fl: "free_list s = []" and ev: "Evict (replacer s) = (Some f, r')"
  shows "\<exists>s'. NewPage s = Inr (Some (next_page_id s, f), s') \<and>
           trace s' = trace s
             @ (if is_dirty (pages s ! f)
                then [WritePage (page_id (pages s ! f)) (data (pages s ! f))] else [])
             @ [TableErase (page_id (pages s ! f)), TableSet (next_page_id s) f]"
proof -
  let ?s0 = "s\<lparr>next_page_id := int32 (next_page_id s + 1)\<rparr>"
  from fl ev have "free_list ?s0 = []" "Evict (replacer ?s0) = (Some f, r')" by simp_all
  then obtain s1 where aq: "acquire_frame ?s0 = (Some f, s1)"
    and tr: "trace s1 = trace ?s0
         @ (if is_dirty (pages ?s0 ! f)
            then [WritePage (page_id (pages ?s0 ! f)) (data (pages ?s0 ! f))] else [])
         @ [TableErase (page_id (pages ?s0 ! f))]"
    by (rule acquire_frame_evict)
  show ?thesis
    using I
  proof (cases rule: NewPage_cases)
    case full
    with ev show ?thesis by simp
  next
    case (ok g s2 r1 r2)
    with aq have g: "g = f" and s2: "s2 = s1" by simp_all
    show ?thesis
      unfolding ok(9) g s2 using tr by simp
  qed
qed

lemma FetchPage_evict:
  assumes I: "bpm_inv s" and fl: "free_list s = []" and ev: "Evict (replacer s) = (Some f, r')"
    and ab: "page_table s p = None"
  shows "\<exists>s'. FetchPage p s = Inr (Some f, s') \<and>
              trace s' = trace s
                @ (if is_dirty (pages s ! f)
                   then [WritePage (page_id (pages s ! f)) (data (pages s ! f))] else [])
                @ [TableErase (page_id (pages s ! f)), TableSet p f, ReadPage p]"
proof -
  from fl ev obtain s1 where aq: "acquire_frame s = (Some f, s1)"
    and tr: "trace s1 = trace s
         @ (if is_dirty (pages s ! f)
            then [WritePage (page_id (pages s ! f)) (data (pages s ! f))] else [])
         @ [TableErase (page_id (pages s ! f))]"
    by (rule acquire_frame_evict)
  show ?thesis
    using I
  proof (cases rule: FetchPage_cases[where p = p])
    case (resident g r1 r2)
    with ab show ?thesis by simp
  next
    case full
    with ev show ?thesis by simp
  next
    case (load g s2 r1 r2)
    with aq have g: "g = f" and s2: "s2 = s1" by simp_all
    show ?thesis
      unfolding load(10) g s2 using tr by simp
  qed
qed

subsection \<open>The concrete run\<close>

lemmas bpm_eval =
  example_bpm_ops_def BufferPoolManager_init_def NewPage_def FetchPage_def UnpinPage_def
  acquire_frame_def frame_update_def table_set_def table_erase_def disk_write_frame_def
  disk_read_frame_def LRUKReplacer_init_def RecordAccess_def SetEvictable_def Evict_def
  erase_at_def ResetMemory_def Let_def static_cast_frame_id_def int32_def

lemma example_pool_size: "(1::nat) < 2 ^ 31"
  by simp

lemma example_bpm_run:
  "bpm_run example_bpm_ops (BufferPoolManager_init 1 2 4 example_disk) = Inr example_bpm"
proof -
  obtain s where "bpm_run example_bpm_ops (BufferPoolManager_init 1 2 4 example_disk) = Inr s"
    by (rule bpm_reachable[OF example_pool_size])
  then show ?thesis by (simp add: example_bpm_def)
qed

lemma example_bpm_fields:
  "free_list example_bpm = []"
  "pages example_bpm = [\<lparr>data = [104, 105, 0, 0], page_id = 0, pin_count = 0, is_dirty = True\<rparr>]"
  "page_table example_bpm 0 = Some 0"
  "page_table example_bpm 7 = None"
  "next_page_id example_bpm = 1"
  "trace example_bpm = [TableSet 0 0]"
  "is_accessible (replacer example_bpm) = [True, False]"
  "history_list (replacer example_bpm) = [0]"
  "history_map (replacer example_bpm) = {0}"
  by (simp_all add: example_bpm_def bpm_eval)

lemma example_bpm_evict:
  "Evict (replacer example_bpm) = (Some 0, snd (Evict (replacer example_bpm)))"
  by (simp add: prod_eq_iff Evict_def example_bpm_fields Let_def)


section \<open>Claims about the buffer pool manager\<close>



text \<open>
  C2, dirty write-back on displacement, in every reachable state of a pool of fewer than
  \<open>2 ^ 31\<close> frames: when the free list is
  empty and the replacer gives the victim \<open>f\<close>, \<open>NewPage\<close> (and \<open>FetchPage\<close> of a page that
  is not resident) succeeds on frame \<open>f\<close>, and what it adds to the trace is: one
  \<open>WritePage\<close> with the old page id of the frame and the contents of the frame if the frame
  was dirty, and no \<open>WritePage\<close> if it was clean; then the erasure of the old page id from
  the page table; then the entry of the new page id (and, for \<open>FetchPage\<close>, the read of
  the page).
\<close>

theorem dirty_write_back:
  assumes "n < 2 ^ 31"
  shows "\<exists>s. bpm_run ops (BufferPoolManager_init n kk psz d) = Inr s \<and>
     (\<forall>f r'. free_list s = [] \<and> Evict (replacer s) = (Some f, r') \<longrightarrow>
        (\<exists>s'. NewPage s = Inr (Some (next_page_id s, f), s') \<and>
           trace s' = trace s
             @ (if is_dirty (pages s ! f)
                then [WritePage (page_id (pages s ! f)) (data (pages s ! f))] else [])
             @ [TableErase (page_id (pages s ! f)), TableSet (next_page_id s) f]) \<and>
        (\<forall>p. page_table s p = None \<longrightarrow>
           (\<exists>s'. FetchPage p s = Inr (Some f, s') \<and>
              trace s' = trace s
                @ (if is_dirty (pages s ! f)
                   then [WritePage (page_id (pages s ! f)) (data (pages s ! f))] else [])
                @ [TableErase (page_id (pages s ! f)), TableSet p f, ReadPage p])))"
proof -
  obtain s where run: "bpm_run ops (BufferPoolManager_init n kk psz d) = Inr s"
    and I: "bpm_inv s"
    using assms by (rule bpm_reachable)
  from run NewPage_evict[OF I] FetchPage_evict[OF I] show ?thesis by blast
qed

theorem dirty_write_back_witness:
  "(1::nat) < 2 ^ 31 \<and> free_list example_bpm = [] \<and>
   Evict (replacer example_bpm) = (Some 0, snd (Evict (replacer example_bpm))) \<and>
   is_dirty (pages example_bpm ! 0) \<and>
   (\<exists>s'. NewPage example_bpm = Inr (Some (1, 0), s') \<and>
      trace s' = [TableSet 0 0, WritePage 0 [104, 105, 0, 0], TableErase 0, TableSet 1 0]) \<and>
   (\<exists>s'. FetchPage 7 example_bpm = Inr (Some 0, s') \<and>
      trace s' = [TableSet 0 0, WritePage 0 [104, 105, 0, 0], TableErase 0, TableSet 7 0,
                  ReadPage 7])"
proof -
  from dirty_write_back [OF example_pool_size, of example_bpm_ops 2 4 example_disk] example_bpm_run
  have P: "\<forall>f r'. free_list example_bpm = [] \<and> Evict (replacer example_bpm) = (Some f, r') \<longrightarrow>
        (\<exists>s'. NewPage example_bpm = Inr (Some (next_page_id example_bpm, f), s') \<and>
           trace s' = trace example_bpm
             @ (if is_dirty (pages example_bpm ! f)
                then [WritePage (page_id (pages example_bpm ! f)) (data (pages example_bpm ! f))] else [])
             @ [TableErase (page_id (pages example_bpm ! f)), TableSet (next_page_id example_bpm) f]) \<and>
        (\<forall>p. page_table example_bpm p = None \<longrightarrow>
           (\<exists>s'. FetchPage p example_bpm = Inr (Some f, s') \<and>
              trace s' = trace example_bpm
                @ (if is_dirty (pages example_bpm ! f)
                   then [WritePage (page_id (pages example_bpm ! f)) (data (pages example_bpm ! f))] else [])
                @ [TableErase (page_id (pages example_bpm ! f)), TableSet p f, ReadPage p]))"
    by simp
  have h: "free_list example_bpm = [] \<and>
           Evict (replacer example_bpm) = (Some 0, snd (Evict (replacer example_bpm)))"
    using example_bpm_fields(1) example_bpm_evict by simp
  note Q = P [rule_format, OF h]
  have a: "\<exists>s'. NewPage example_bpm = Inr (Some (1, 0), s') \<and>
      trace s' = [TableSet 0 0, WritePage 0 [104, 105, 0, 0], TableErase 0, TableSet 1 0]"
    using Q [THEN conjunct1] by (simp add: example_bpm_fields)
  have b: "\<exists>s'. FetchPage 7 example_bpm = Inr (Some 0, s') \<and>
      trace s' = [TableSet 0 0, WritePage 0 [104, 105, 0, 0], TableErase 0, TableSet 7 0,
                  ReadPage 7]"
    using Q [THEN conjunct2, rule_format, OF example_bpm_fields(4)]
    by (simp add: example_bpm_fields)
  have d: "is_dirty (pages example_bpm ! 0)" by (simp add: example_bpm_fields)
  from example_pool_size h d a b show ?thesis by (intro conjI) simp_all
qed

text \<open>
  C10, \<open>FlushPage\<close>, in every reachable state of a pool of fewer than \<open>2 ^ 31\<close> frames:
  it returns false and changes nothing for
  \<open>INVALID_PAGE_ID\<close> and for a page that is not in the page table. Otherwise the page is
  in a frame of the pool that holds this page id; \<open>FlushPage\<close> returns true, writes the
  contents of the frame to the disk under this page id whether the frame is dirty or not
  (one \<open>WritePage\<close> is added to the trace), clears the dirty flag of the frame and changes
  nothing else: the pin count, the page table, the free list and the replacer are as they
  were.
\<close>

theorem flush_page_effect:
  assumes "n < 2 ^ 31"
  shows "\<exists>s. bpm_run ops (BufferPoolManager_init n kk psz d) = Inr s \<and>
     FlushPage INVALID_PAGE_ID s = (False, s) \<and>
     (\<forall>p. page_table s p = None \<longrightarrow> FlushPage p s = (False, s)) \<and>
     (\<forall>p f. p \<noteq> INVALID_PAGE_ID \<and> page_table s p = Some f \<longrightarrow>
        (\<exists>s'. FlushPage p s = (True, s') \<and>
           f < pool_size s \<and> page_id (pages s ! f) = p \<and>
           trace s' = trace s @ [WritePage p (data (pages s ! f))] \<and>
           disk s' = (disk s)(p := data (pages s ! f)) \<and>
           pages s' = (pages s)[f := (pages s ! f)\<lparr>is_dirty := False\<rparr>] \<and>
           \<not> is_dirty (pages s' ! f) \<and>
           pin_count (pages s' ! f) = pin_count (pages s ! f) \<and>
           page_table s' = page_table s \<and> free_list s' = free_list s \<and>
           replacer s' = replacer s \<and> next_page_id s' = next_page_id s))"
proof -
  obtain s where run: "bpm_run ops (BufferPoolManager_init n kk psz d) = Inr s"
    and I: "bpm_inv s" and T: "table_inv s"
    using assms by (rule bpm_reachable_all)
  note inv = bpm_invD[OF I]
  have 1: "FlushPage INVALID_PAGE_ID s = (False, s)"
    by (simp add: FlushPage_def)
  have 2: "FlushPage p s = (False, s)" if "page_table s p = None" for p
    using that by (simp add: FlushPage_def)
  have 3: "\<exists>s'. FlushPage p s = (True, s') \<and>
           f < pool_size s \<and> page_id (pages s ! f) = p \<and>
           trace s' = trace s @ [WritePage p (data (pages s ! f))] \<and>
           disk s' = (disk s)(p := data (pages s ! f)) \<and>
           pages s' = (pages s)[f := (pages s ! f)\<lparr>is_dirty := False\<rparr>] \<and>
           \<not> is_dirty (pages s' ! f) \<and>
           pin_count (pages s' ! f) = pin_count (pages s ! f) \<and>
           page_table s' = page_table s \<and> free_list s' = free_list s \<and>
           replacer s' = replacer s \<and> next_page_id s' = next_page_id s"
    if "p \<noteq> INVALID_PAGE_ID" and m: "page_table s p = Some f" for p f
  proof -
    from inv(5)[OF m] inv(1) have lt: "f < pool_size s" and len: "f < length (pages s)" by simp_all
    from table_invD(2)[OF T m] have pid: "page_id (pages s ! f) = p" .
    show ?thesis
      using that lt len pid by (simp add: FlushPage_def)
  qed
  from run 1 2 3 show ?thesis by blast
qed

theorem flush_page_effect_witness:
  "(1::nat) < 2 ^ 31 \<and> (0::int) \<noteq> INVALID_PAGE_ID \<and> page_table example_bpm 0 = Some 0 \<and>
   FlushPage INVALID_PAGE_ID example_bpm = (False, example_bpm) \<and>
   FlushPage 7 example_bpm = (False, example_bpm) \<and>
   (\<exists>s'. FlushPage 0 example_bpm = (True, s') \<and>
      trace s' = [TableSet 0 0, WritePage 0 [104, 105, 0, 0]] \<and>
      \<not> is_dirty (pages s' ! 0) \<and> pin_count (pages s' ! 0) = 0 \<and>
      page_table s' = page_table example_bpm \<and> free_list s' = free_list example_bpm \<and>
      replacer s' = replacer example_bpm)"
proof -
  from flush_page_effect [OF example_pool_size, of example_bpm_ops 2 4 example_disk] example_bpm_run
  have P: "FlushPage INVALID_PAGE_ID example_bpm = (False, example_bpm) \<and>
     (\<forall>p. page_table example_bpm p = None \<longrightarrow> FlushPage p example_bpm = (False, example_bpm)) \<and>
     (\<forall>p f. p \<noteq> INVALID_PAGE_ID \<and> page_table example_bpm p = Some f \<longrightarrow>
        (\<exists>s'. FlushPage p example_bpm = (True, s') \<and>
           f < pool_size example_bpm \<and> page_id (pages example_bpm ! f) = p \<and>
           trace s' = trace example_bpm @ [WritePage p (data (pages example_bpm ! f))] \<and>
           disk s' = (disk example_bpm)(p := data (pages example_bpm ! f)) \<and>
           pages s' = (pages example_bpm)[f := (pages example_bpm ! f)\<lparr>is_dirty := False\<rparr>] \<and>
           \<not> is_dirty (pages s' ! f) \<and>
           pin_count (pages s' ! f) = pin_count (pages example_bpm ! f) \<and>
           page_table s' = page_table example_bpm \<and> free_list s' = free_list example_bpm \<and>
           replacer s' = replacer example_bpm \<and> next_page_id s' = next_page_id example_bpm))"
    by simp
  have h: "(0::int) \<noteq> INVALID_PAGE_ID \<and> page_table example_bpm 0 = Some 0"
    by (simp add: INVALID_PAGE_ID_def example_bpm_fields)
  note P1 = P [THEN conjunct1]
  note P2 = P [THEN conjunct2, THEN conjunct1, rule_format, OF example_bpm_fields(4)]
  note P3 = P [THEN conjunct2, THEN conjunct2, rule_format, OF h]
  have c: "\<exists>s'. FlushPage 0 example_bpm = (True, s') \<and>
      trace s' = [TableSet 0 0, WritePage 0 [104, 105, 0, 0]] \<and>
      \<not> is_dirty (pages s' ! 0) \<and> pin_count (pages s' ! 0) = 0 \<and>
      page_table s' = page_table example_bpm \<and> free_list s' = free_list example_bpm \<and>
      replacer s' = replacer example_bpm"
    using P3 by (auto simp: example_bpm_fields)
  from example_pool_size h P1 P2 c show ?thesis by (intro conjI) simp_all
qed

end

